theory Spec2Isabelle
  imports Complex_Main "HOL-Library.Word" "HOL-Library.Monad_Syntax"
begin

unbundle bit_operations_syntax

section \<open>Data model of \<^verbatim>\<open>grid.h\<close>\<close>

text \<open>
  C's \<^verbatim>\<open>int\<close> and \<^verbatim>\<open>uint32_t\<close> are 32-bit words: \<open>sint\<close> reads an \<^verbatim>\<open>int\<close>, \<open>uint\<close>
  and \<open>unat\<close> read an unsigned value, \<open><s\<close> and \<open>\<le>s\<close> are the signed comparisons.
  Arithmetic wraps around, for \<^verbatim>\<open>int\<close> too, where C leaves the overflow undefined and
  the machine wraps. \<^verbatim>\<open>unsigned short\<close> is a 16-bit word. The fields of a struct keep
  their names behind a prefix (\<open>c_\<close>, \<open>sc_\<close>, \<open>e_\<close>, \<open>r_\<close>), as \<^verbatim>\<open>begin\<close>, \<^verbatim>\<open>end\<close>, \<^verbatim>\<open>min\<close>
  and \<^verbatim>\<open>max\<close> are taken.
\<close>

type_synonym int32 = "32 word"
type_synonym uint32 = "32 word"
type_synonym uint16 = "16 word"

text \<open>
  Modelled from the spec: \<^verbatim>\<open>vec.h\<close> is not among the sources. \<^verbatim>\<open>ivec3\<close> is a triple of
  \<^verbatim>\<open>int\<close> and \<^verbatim>\<open>usvec3\<close> a triple of 16-bit unsigned integers, with components
  \<^verbatim>\<open>x\<close>, \<^verbatim>\<open>y\<close>, \<^verbatim>\<open>z\<close>.
\<close>

record ivec3 =
  ix :: int32
  iy :: int32
  iz :: int32

record usvec3 =
  usx :: uint16
  usy :: uint16
  usz :: uint16

text \<open>\<^verbatim>\<open>struct Cell { ivec3 min; int begin; ivec3 max; int end; }\<close>\<close>

record Cell =
  c_min :: ivec3
  c_begin :: int32
  c_max :: ivec3
  c_end :: int32

text \<open>\<^verbatim>\<open>struct SmallCell { usvec3 min; usvec3 max; int begin; }\<close>\<close>

record SmallCell =
  sc_min :: usvec3
  sc_max :: usvec3
  sc_begin :: int32

section \<open>Reference enumeration\<close>

text \<open>
  \<^verbatim>\<open>ref_ids\<close> is a C array of \<^verbatim>\<open>int\<close>: a list, read at a signed index. A read outside
  the array is undefined behaviour in C and \<open>None\<close> here.
\<close>

definition read_ref :: "int32 list \<Rightarrow> int32 \<Rightarrow> int32 option" where
  "read_ref ref_ids i =
     (if 0 \<le> sint i \<and> nat (sint i) < length ref_ids
      then Some (ref_ids ! nat (sint i)) else None)"

text \<open>
  The guarded read of the \<^verbatim>\<open>Cell\<close> variant,
  \<^verbatim>\<open>cur < cell.end ? ref_ids[cur++] : -1\<close>: the value read and the new \<^verbatim>\<open>cur\<close>.
\<close>

definition fetch_ref :: "int32 list \<Rightarrow> int32 \<Rightarrow> int32 \<Rightarrow> (int32 \<times> int32) option" where
  "fetch_ref ref_ids e cur =
     (if cur <s e then
        (case read_ref ref_ids cur of None \<Rightarrow> None | Some r \<Rightarrow> Some (r, cur + 1))
      else Some (- 1, cur))"

lemma sint_add_no_ovf:
  "- (2 ^ 31) \<le> sint a + sint b \<Longrightarrow> sint a + sint b < 2 ^ 31 \<Longrightarrow>
   sint (a + b :: int32) = sint a + sint b"
  by (simp add: sint_word_ariths signed_take_bit_int_eq_self)

lemma sint_succ: "(cur :: int32) <s e \<Longrightarrow> sint (cur + 1) = sint cur + 1"
proof -
  assume "cur <s e"
  then have "sint cur < sint e" by (simp add: word_sless_alt)
  moreover have "sint e < 2 ^ 31" using sint_lt [of e] by simp
  moreover have "- (2 ^ 31) \<le> sint cur" using sint_ge [of cur] by simp
  ultimately show ?thesis using sint_add_no_ovf [of cur 1] by simp
qed

text \<open>
  The visitor \<^verbatim>\<open>f\<close> is a state transformer: \<open>f ref s\<close> is the state after \<^verbatim>\<open>f(ref)\<close>
  has run in state \<open>s\<close>. The loop \<^verbatim>\<open>while (ref >= 0) { next = ...; f(ref); ref = next; }\<close>
  of the \<^verbatim>\<open>Cell\<close> variant returns the final state.
\<close>

function foreach_loop ::
  "int32 list \<Rightarrow> (int32 \<Rightarrow> 's \<Rightarrow> 's) \<Rightarrow> int32 \<Rightarrow> int32 \<Rightarrow> int32 \<Rightarrow> 's \<Rightarrow> 's option" where
  "foreach_loop ref_ids f e cur ref s =
     (if 0 \<le>s ref then
        (case fetch_ref ref_ids e cur of
           None \<Rightarrow> None
         | Some (next, cur') \<Rightarrow> foreach_loop ref_ids f e cur' next (f ref s))
      else Some s)"
  by pat_completeness auto
termination
  apply (relation "measure (\<lambda>(ref_ids, f, e, cur, ref, s).
            2 * nat (sint e - sint cur) + (if 0 \<le>s ref then 1 else 0))")
   apply simp
  apply (auto simp: fetch_ref_def word_sless_alt word_sle_eq sint_succ
              split: if_splits option.splits)
  done

declare foreach_loop.simps [simp del]

text \<open>\<^verbatim>\<open>foreach_ref(Cell cell, const int* ref_ids, F f)\<close>: the final state and the returned count.\<close>

definition foreach_ref ::
  "Cell \<Rightarrow> int32 list \<Rightarrow> (int32 \<Rightarrow> 's \<Rightarrow> 's) \<Rightarrow> 's \<Rightarrow> ('s \<times> int32) option" where
  "foreach_ref cell ref_ids f s =
     (case fetch_ref ref_ids (c_end cell) (c_begin cell) of
        None \<Rightarrow> None
      | Some (ref, cur) \<Rightarrow>
          (case foreach_loop ref_ids f (c_end cell) cur ref s of
             None \<Rightarrow> None
           | Some s' \<Rightarrow> Some (s', c_end cell - c_begin cell)))"

text \<open>
  The loop of the \<^verbatim>\<open>SmallCell\<close> variant, \<^verbatim>\<open>while (ref >= 0) { next = ref_ids[cur++];
  f(ref); ref = next; }\<close>, returns the final state and the final \<^verbatim>\<open>cur\<close>.
\<close>

lemma uint_eq_sint_nonneg: "0 \<le> sint (w :: int32) \<Longrightarrow> uint w = sint w"
proof -
  assume nn: "0 \<le> sint w"
  have "sint w < 2 ^ 32" using sint_lt [of w] by simp
  with nn have "take_bit 32 (sint w) = sint w" by (simp add: take_bit_int_eq_self)
  then show ?thesis by (simp add: uint_sint)
qed

lemma unat_eq_sint_nonneg: "0 \<le> sint (w :: int32) \<Longrightarrow> unat w = nat (sint w)"
  by (metis uint_eq_sint_nonneg unat_eq_nat_uint)

lemma unat_succ_nonneg: "0 \<le> sint (cur :: int32) \<Longrightarrow> unat (cur + 1) = unat cur + 1"
proof -
  assume nn: "0 \<le> sint cur"
  have "sint cur < 2 ^ 31" using sint_lt [of cur] by simp
  with nn have "unat cur < 2 ^ 31" by (simp add: unat_eq_sint_nonneg)
  then have "unat cur + unat (1 :: int32) < 2 ^ 32" by simp
  then show ?thesis by (simp add: unat_add_lem [THEN iffD1])
qed

function foreach_small_loop ::
  "int32 list \<Rightarrow> (int32 \<Rightarrow> 's \<Rightarrow> 's) \<Rightarrow> int32 \<Rightarrow> int32 \<Rightarrow> 's \<Rightarrow> ('s \<times> int32) option" where
  "foreach_small_loop ref_ids f cur ref s =
     (if 0 \<le>s ref then
        (case read_ref ref_ids cur of
           None \<Rightarrow> None
         | Some next \<Rightarrow> foreach_small_loop ref_ids f (cur + 1) next (f ref s))
      else Some (s, cur))"
  by pat_completeness auto
termination
proof (relation "measure (\<lambda>(ref_ids, f, cur, ref, s). length ref_ids - unat cur)")
  show "wf (measure (\<lambda>(ref_ids, f, cur, ref, s). length ref_ids - unat cur))"
    by simp
next
  fix ref_ids :: "int32 list" and f :: "int32 \<Rightarrow> 's \<Rightarrow> 's" and cur ref :: int32
    and s :: 's and x2 :: int32
  assume "read_ref ref_ids cur = Some x2"
  then have nn: "0 \<le> sint cur" and lt: "nat (sint cur) < length ref_ids"
    by (auto simp: read_ref_def split: if_splits)
  from unat_succ_nonneg [OF nn] unat_eq_sint_nonneg [OF nn] lt
  have "unat (cur + 1) = unat cur + 1" and "unat cur < length ref_ids" by auto
  then show "((ref_ids, f, cur + 1, x2, f ref s), (ref_ids, f, cur, ref, s))
      \<in> measure (\<lambda>(ref_ids, f, cur, ref, s). length ref_ids - unat cur)"
    by simp
qed

declare foreach_small_loop.simps [simp del]

text \<open>\<^verbatim>\<open>foreach_ref(SmallCell small_cell, const int* ref_ids, F f)\<close>\<close>

definition foreach_ref_small ::
  "SmallCell \<Rightarrow> int32 list \<Rightarrow> (int32 \<Rightarrow> 's \<Rightarrow> 's) \<Rightarrow> 's \<Rightarrow> ('s \<times> int32) option" where
  "foreach_ref_small small_cell ref_ids f s =
     (let cur = sc_begin small_cell in
      case (if 0 \<le>s cur
            then (case read_ref ref_ids cur of None \<Rightarrow> None | Some r \<Rightarrow> Some (r, cur + 1))
            else Some (- 1, cur)) of
        None \<Rightarrow> None
      | Some (ref, cur') \<Rightarrow>
          (case foreach_small_loop ref_ids f cur' ref s of
             None \<Rightarrow> None
           | Some (s', cur'') \<Rightarrow> Some (s', cur'' - sc_begin small_cell)))"

section \<open>Packed transfer codec\<close>

text \<open>
  CUDA's \<^verbatim>\<open>int4\<close> and \<^verbatim>\<open>uint4\<close>: one 128-bit memory word as four 32-bit subwords
  \<^verbatim>\<open>x\<close>, \<^verbatim>\<open>y\<close>, \<^verbatim>\<open>z\<close>, \<^verbatim>\<open>w\<close>. The memory behind \<^verbatim>\<open>cell_ptr\<close> is passed explicitly:
  \<^verbatim>\<open>store_cell\<close> returns the words it writes and \<^verbatim>\<open>load_cell\<close> takes the words it reads.
\<close>

record int4 =
  i4x :: int32
  i4y :: int32
  i4z :: int32
  i4w :: int32

record uint4 =
  u4x :: uint32
  u4y :: uint32
  u4z :: uint32
  u4w :: uint32

definition make_int4 :: "int32 \<Rightarrow> int32 \<Rightarrow> int32 \<Rightarrow> int32 \<Rightarrow> int4" where
  "make_int4 a b c d = \<lparr>i4x = a, i4y = b, i4z = c, i4w = d\<rparr>"

definition make_uint4 :: "uint32 \<Rightarrow> uint32 \<Rightarrow> uint32 \<Rightarrow> uint32 \<Rightarrow> uint4" where
  "make_uint4 a b c d = \<lparr>u4x = a, u4y = b, u4z = c, u4w = d\<rparr>"

text \<open>\<^verbatim>\<open>load_cell(const Cell*)\<close> reads \<^verbatim>\<open>ptr[0]\<close> and \<^verbatim>\<open>ptr[1]\<close>.\<close>

definition load_cell :: "int4 \<times> int4 \<Rightarrow> Cell" where
  "load_cell ptr =
     (let cell0 = fst ptr; cell1 = snd ptr in
      \<lparr>c_min = \<lparr>ix = i4x cell0, iy = i4y cell0, iz = i4z cell0\<rparr>, c_begin = i4w cell0,
       c_max = \<lparr>ix = i4x cell1, iy = i4y cell1, iz = i4z cell1\<rparr>, c_end = i4w cell1\<rparr>)"

definition load_cell_min :: "int4 \<times> int4 \<Rightarrow> ivec3" where
  "load_cell_min ptr = (let cell0 = fst ptr in \<lparr>ix = i4x cell0, iy = i4y cell0, iz = i4z cell0\<rparr>)"

text \<open>\<^verbatim>\<open>store_cell(Cell*, const Cell&)\<close> writes \<^verbatim>\<open>ptr[0]\<close> and \<^verbatim>\<open>ptr[1]\<close>.\<close>

definition store_cell :: "Cell \<Rightarrow> int4 \<times> int4" where
  "store_cell cell =
     (make_int4 (ix (c_min cell)) (iy (c_min cell)) (iz (c_min cell)) (c_begin cell),
      make_int4 (ix (c_max cell)) (iy (c_max cell)) (iz (c_max cell)) (c_end cell))"

text \<open>
  \<^verbatim>\<open>load_cell(const SmallCell*)\<close>: the \<^verbatim>\<open>usvec3\<close> constructor keeps the low 16 bits of each
  argument; \<^verbatim>\<open>>>\<close> on \<^verbatim>\<open>uint\<close> is the logical shift.
\<close>

definition load_cell_small :: "uint4 \<Rightarrow> SmallCell" where
  "load_cell_small cell =
     \<lparr>sc_min = \<lparr>usx = ucast (u4x cell), usy = ucast (drop_bit 16 (u4x cell)),
                usz = ucast (u4y cell)\<rparr>,
      sc_max = \<lparr>usx = ucast (drop_bit 16 (u4y cell)), usy = ucast (u4z cell),
                usz = ucast (drop_bit 16 (u4z cell))\<rparr>,
      sc_begin = u4w cell\<rparr>"

text \<open>
  \<^verbatim>\<open>store_cell(const SmallCell*, const SmallCell&)\<close>: each 16-bit component is widened to
  32 bits before \<^verbatim>\<open>|\<close> and \<^verbatim>\<open><< 16\<close>.
\<close>

definition store_cell_small :: "SmallCell \<Rightarrow> uint4" where
  "store_cell_small cell =
     make_uint4 (ucast (usx (sc_min cell)) OR push_bit 16 (ucast (usy (sc_min cell))))
                (ucast (usz (sc_min cell)) OR push_bit 16 (ucast (usx (sc_max cell))))
                (ucast (usy (sc_max cell)) OR push_bit 16 (ucast (usz (sc_max cell))))
                (sc_begin cell)"

section \<open>Range and dimension sizing\<close>









text \<open>\<^verbatim>\<open>struct Range { int lx, ly, lz; int hx, hy, hz; }\<close>\<close>

record Range =
  r_lx :: int32
  r_ly :: int32
  r_lz :: int32
  r_hx :: int32
  r_hy :: int32
  r_hz :: int32

definition range_size :: "Range \<Rightarrow> int32" where
  "range_size r = (r_hx r - r_lx r + 1) * (r_hy r - r_ly r + 1) * (r_hz r - r_lz r + 1)"



section \<open>Voxel map and hierarchical lookup\<close>

text \<open>
  \<^verbatim>\<open>struct Entry { uint32_t log_dim : 2; uint32_t begin : 30; }\<close>: each bit-field is a word
  of its own width, widened to \<^verbatim>\<open>uint32_t\<close> when it is read.
\<close>

record Entry =
  e_log_dim :: "2 word"
  e_begin :: "30 word"

text \<open>\<^verbatim>\<open>make_entry\<close>: storing into a bit-field keeps the low bits.\<close>

definition make_entry :: "uint32 \<Rightarrow> uint32 \<Rightarrow> Entry" where
  "make_entry log_dim start = \<lparr>e_log_dim = ucast log_dim, e_begin = ucast start\<rparr>"

text \<open>
  \<^verbatim>\<open>entries[i]\<close>: a read outside the array is undefined behaviour in C and \<open>None\<close> here.
  The index is the value of an \<^verbatim>\<open>int\<close> (\<open>sint\<close>) or of a \<^verbatim>\<open>uint32_t\<close> (\<open>uint\<close>).
\<close>

definition entry_at :: "Entry list \<Rightarrow> int \<Rightarrow> Entry option" where
  "entry_at entries i =
     (if 0 \<le> i \<and> nat i < length entries then Some (entries ! nat i) else None)"

text \<open>
  \<^verbatim>\<open>a >> n\<close> on \<^verbatim>\<open>int\<close>: the arithmetic shift; undefined in C, and \<open>None\<close> here, unless
  \<open>0 \<le> n < 32\<close>.
\<close>

definition shr_int :: "int32 \<Rightarrow> int32 \<Rightarrow> int32 option" where
  "shr_int a n =
     (if 0 \<le> sint n \<and> sint n < 32 then Some (signed_drop_bit (nat (sint n)) a) else None)"

text \<open>
  Modelled from the spec: \<^verbatim>\<open>vec.h\<close> is not among the sources. \<^verbatim>\<open>>>\<close> and \<^verbatim>\<open>&\<close> between an
  \<^verbatim>\<open>ivec3\<close> and an \<^verbatim>\<open>int\<close> shift and mask each axis.
\<close>

definition shr_ivec3 :: "ivec3 \<Rightarrow> int32 \<Rightarrow> ivec3 option" where
  "shr_ivec3 v n = do {
     a \<leftarrow> shr_int (ix v) n;
     b \<leftarrow> shr_int (iy v) n;
     c \<leftarrow> shr_int (iz v) n;
     Some \<lparr>ix = a, iy = b, iz = c\<rparr>
   }"

definition and_ivec3 :: "ivec3 \<Rightarrow> int32 \<Rightarrow> ivec3" where
  "and_ivec3 v m = \<lparr>ix = ix v AND m, iy = iy v AND m, iz = iz v AND m\<rparr>"

lemma uint_pos_iff: "0 < uint (w :: 'a::len word) \<longleftrightarrow> w \<noteq> 0"
proof -
  have "0 \<le> uint w" by simp
  moreover have "uint w = 0 \<longleftrightarrow> w = 0" by (simp add: unsigned_eq_0_iff)
  ultimately show ?thesis by linarith
qed

lemma uint_log_dim: "uint (ucast (l :: 2 word) :: uint32) = uint l \<and> uint l < 4"
proof -
  have "uint l < 4" using uint_lt2p [of l] by simp
  moreover have "uint (ucast l :: uint32) = uint l"
    using \<open>uint l < 4\<close> by (simp add: unsigned_ucast_eq take_bit_int_eq_self)
  ultimately show ?thesis by simp
qed

lemma sint_sub_log_dim:
  assumes "0 \<le> sint (a :: int32)"
  shows "sint (a - ucast (l :: 2 word)) = sint a - uint l"
proof -
  from uint_log_dim [of l] have u: "uint (ucast l :: uint32) = uint l" and l4: "uint l < 4"
    by simp_all
  have "0 \<le> uint l" by simp
  have lo: "- (2 ^ 31) \<le> uint l" by (rule order_trans [of _ 0]) simp_all
  have hi: "uint l < 2 ^ 31" by (rule less_trans [OF l4]) simp
  from lo hi have "signed_take_bit 31 (uint l) = uint l" by (rule signed_take_bit_int_eq_self)
  then have "sint (ucast l :: uint32) = uint l"
    using u by (simp add: sint_uint)
  then have "sint (a - ucast l) = signed_take_bit 31 (sint a - uint l)"
    by (simp add: sint_word_ariths)
  moreover have "sint a < 2 ^ 31" using sint_lt [of a] by simp
  then have "sint a - uint l < 2 ^ 31" using \<open>0 \<le> uint l\<close> by linarith
  moreover have "- (2 ^ 31 :: int) \<le> - 4" by simp
  then have "- (2 ^ 31) \<le> sint a - uint l" using assms l4 by linarith
  ultimately show ?thesis by (simp only: signed_take_bit_int_eq_self)
qed

text \<open>
  The descent loop of \<^verbatim>\<open>lookup_entry\<close>. \<^verbatim>\<open>log_dim\<close> is \<^verbatim>\<open>entry.log_dim\<close> at every test of
  the loop condition, and \<open>d\<close> is the accumulated depth. \<^verbatim>\<open>shift - d\<close> is computed in
  \<^verbatim>\<open>uint32_t\<close> and converted to \<^verbatim>\<open>int\<close>. The locals \<^verbatim>\<open>begin\<close> and \<^verbatim>\<open>mask\<close> are \<open>start\<close>
  and \<open>msk\<close> here.
\<close>

function lookup_loop :: "Entry list \<Rightarrow> int32 \<Rightarrow> ivec3 \<Rightarrow> Entry \<Rightarrow> uint32 \<Rightarrow> uint32 option" where
  "lookup_loop entries shift voxel entry d =
     (let log_dim = ucast (e_log_dim entry) :: uint32 in
      if log_dim \<noteq> 0 then
        (let start = ucast (e_begin entry) :: uint32;
             msk = push_bit (unat log_dim) 1 - 1 :: int32
         in case shr_ivec3 voxel (shift - d) of
              None \<Rightarrow> None
            | Some v \<Rightarrow>
                (let k = and_ivec3 v msk in
                 case entry_at entries
                        (uint (start + ix k +
                               push_bit (unat log_dim) (iy k + push_bit (unat log_dim) (iz k)))) of
                   None \<Rightarrow> None
                 | Some entry' \<Rightarrow>
                     lookup_loop entries shift voxel entry' (d + ucast (e_log_dim entry'))))
      else Some (ucast (e_begin entry)))"
  by pat_completeness auto
termination
proof (relation "measure (\<lambda>(entries, shift, voxel, entry, d).
          if e_log_dim entry = 0 then 0 else 1 + nat (sint (shift - d) + 3))")
  show "wf (measure (\<lambda>(entries, shift, voxel, entry, d).
          if e_log_dim entry = 0 then 0 else 1 + nat (sint (shift - d) + 3)))"
    by simp
next
  fix entries :: "Entry list" and shift :: int32 and voxel :: ivec3 and entry :: Entry
    and d x xa xb :: uint32 and x2 :: ivec3 and xc :: ivec3 and x2a :: Entry
  assume ld: "x = ucast (e_log_dim entry)" "x \<noteq> 0"
    and sh: "shr_ivec3 voxel (shift - d) = Some x2"
  from ld have nz: "e_log_dim entry \<noteq> 0" by auto
  from sh have c: "0 \<le> sint (shift - d)"
    by (auto simp: shr_ivec3_def shr_int_def split: if_splits bind_splits)
  have eq: "shift - (d + ucast (e_log_dim x2a)) = (shift - d) - ucast (e_log_dim x2a)" by simp
  have s: "sint (shift - (d + ucast (e_log_dim x2a))) = sint (shift - d) - uint (e_log_dim x2a)"
    unfolding eq using c by (rule sint_sub_log_dim)
  have l4: "uint (e_log_dim x2a) < 4" using uint_log_dim [of "e_log_dim x2a"] by simp
  have pos: "e_log_dim x2a \<noteq> 0 \<Longrightarrow> 0 < uint (e_log_dim x2a)"
    by (rule uint_pos_iff [THEN iffD2])
  show "((entries, shift, voxel, x2a, d + ucast (e_log_dim x2a)), (entries, shift, voxel, entry, d))
      \<in> measure (\<lambda>(entries, shift, voxel, entry, d).
          if e_log_dim entry = 0 then 0 else 1 + nat (sint (shift - d) + 3))"
    using nz c s l4 pos by auto
qed

declare lookup_loop.simps [simp del]

text \<open>\<^verbatim>\<open>lookup_entry(entries, shift, dims, voxel)\<close>; the top-level index is an \<^verbatim>\<open>int\<close>.\<close>

definition lookup_entry :: "Entry list \<Rightarrow> int32 \<Rightarrow> ivec3 \<Rightarrow> ivec3 \<Rightarrow> uint32 option" where
  "lookup_entry entries shift dims voxel = do {
     tx \<leftarrow> shr_int (ix voxel) shift;
     ty \<leftarrow> shr_int (iy voxel) shift;
     tz \<leftarrow> shr_int (iz voxel) shift;
     entry \<leftarrow> entry_at entries (sint (tx + ix dims * (ty + iy dims * tz)));
     lookup_loop entries shift voxel entry (ucast (e_log_dim entry))
   }"

section \<open>Vocabulary of the properties\<close>

subsection \<open>Reference enumeration\<close>

text \<open>The visitor that records every reference it is given, in order.\<close>

definition record_ref :: "int32 \<Rightarrow> int32 list \<Rightarrow> int32 list" where
  "record_ref r visited = visited @ [r]"

text \<open>A stored value is a reference when it is not negative.\<close>

definition is_ref :: "int32 \<Rightarrow> bool" where
  "is_ref r = (0 \<le>s r)"

text \<open>The values \<^verbatim>\<open>ref_ids[b], ..., ref_ids[e - 1]\<close>, in stored order.\<close>

definition ref_slice :: "int32 list \<Rightarrow> int32 \<Rightarrow> int32 \<Rightarrow> int32 list" where
  "ref_slice ref_ids b e = map (\<lambda>i. ref_ids ! i) [nat (sint b) ..< nat (sint e)]"

text \<open>
  The chain of a \<^verbatim>\<open>SmallCell\<close>: the stored values from \<^verbatim>\<open>begin\<close> up to the first
  negative one.
\<close>

definition ref_chain :: "int32 list \<Rightarrow> int32 \<Rightarrow> int32 list" where
  "ref_chain ref_ids b = takeWhile is_ref (drop (nat (sint b)) ref_ids)"

subsection \<open>Range and dimension sizing\<close>









subsection \<open>One step of the descent, in integer arithmetic\<close>

text \<open>
  The offsets of a child inside the block of an internal entry of side \<open>2 ^ l\<close>: the
  local coordinates of the voxel, \<open>(v >> c) & (2 ^ l - 1)\<close> on each axis, and the index
  \<open>begin + k.x + ((k.y + (k.z << l)) << l)\<close>.
\<close>

definition local_coords :: "nat \<Rightarrow> nat \<Rightarrow> ivec3 \<Rightarrow> nat \<times> nat \<times> nat" where
  "local_coords l c v =
     (nat ((sint (ix v) div 2 ^ c) mod 2 ^ l),
      nat ((sint (iy v) div 2 ^ c) mod 2 ^ l),
      nat ((sint (iz v) div 2 ^ c) mod 2 ^ l))"

definition child_offset :: "nat \<Rightarrow> nat \<times> nat \<times> nat \<Rightarrow> nat" where
  "child_offset l k = (case k of (kx, ky, kz) \<Rightarrow> kx + 2 ^ l * (ky + 2 ^ l * kz))"

definition child_index :: "nat \<Rightarrow> nat \<Rightarrow> nat \<times> nat \<times> nat \<Rightarrow> nat" where
  "child_index l b k = b + child_offset l k"

subsection \<open>Well-formed entry arrays and grids\<close>

text \<open>
  A well-formed block structure, as far as the descent needs it: the entry at index \<open>i\<close>
  exists and, when it is internal with side \<open>2 ^ l\<close>, its depth \<open>l\<close> does not exceed the
  shift \<open>r\<close> that remains and each of the \<open>8 ^ l\<close> entries of its child block is
  well-formed for the remaining shift \<open>r - l\<close>.
\<close>

function wf_block :: "Entry list \<Rightarrow> nat \<Rightarrow> nat \<Rightarrow> bool" where
  "wf_block es r i =
     (if i < length es then
        (let l = unat (e_log_dim (es ! i)) in
         if l = 0 then True
         else if l \<le> r then
           list_all (\<lambda>k. wf_block es (r - l) (unat (e_begin (es ! i)) + k)) [0 ..< 8 ^ l]
         else False)
      else False)"
  by pat_completeness auto
termination
  by (relation "measure (\<lambda>(es, r, i). r)") auto

declare wf_block.simps [simp del]

text \<open>A voxel inside the inclusive bounds of a cell.\<close>

definition in_cell :: "Cell \<Rightarrow> ivec3 \<Rightarrow> bool" where
  "in_cell c v =
     (ix (c_min c) \<le>s ix v \<and> ix v \<le>s ix (c_max c) \<and>
      iy (c_min c) \<le>s iy v \<and> iy v \<le>s iy (c_max c) \<and>
      iz (c_min c) \<le>s iz v \<and> iz v \<le>s iz (c_max c))"

text \<open>
  The cube of side \<open>2 ^ r\<close> at the position \<open>p\<close>, counted in cubes of that side, lies
  inside the inclusive bounds of a cell.
\<close>

definition cube_in_cell :: "Cell \<Rightarrow> nat \<Rightarrow> int \<times> int \<times> int \<Rightarrow> bool" where
  "cube_in_cell c r p =
     (case p of (cx, cy, cz) \<Rightarrow>
        sint (ix (c_min c)) \<le> cx * 2 ^ r \<and> cx * 2 ^ r + 2 ^ r - 1 \<le> sint (ix (c_max c)) \<and>
        sint (iy (c_min c)) \<le> cy * 2 ^ r \<and> cy * 2 ^ r + 2 ^ r - 1 \<le> sint (iy (c_max c)) \<and>
        sint (iz (c_min c)) \<le> cz * 2 ^ r \<and> cz * 2 ^ r + 2 ^ r - 1 \<le> sint (iz (c_max c)))"

text \<open>The cube of side \<open>2 ^ r\<close> that holds a voxel.\<close>

definition voxel_cube :: "nat \<Rightarrow> ivec3 \<Rightarrow> int \<times> int \<times> int" where
  "voxel_cube r v = (sint (ix v) div 2 ^ r, sint (iy v) div 2 ^ r, sint (iz v) div 2 ^ r)"

text \<open>The local coordinates inside a block of side \<open>2 ^ l\<close>, and the cube of a child.\<close>

definition cube_offsets :: "nat \<Rightarrow> (nat \<times> nat \<times> nat) list" where
  "cube_offsets l = [(kx, ky, kz). kz \<leftarrow> [0 ..< 2 ^ l], ky \<leftarrow> [0 ..< 2 ^ l], kx \<leftarrow> [0 ..< 2 ^ l]]"

definition child_coords :: "nat \<Rightarrow> int \<times> int \<times> int \<Rightarrow> nat \<times> nat \<times> nat \<Rightarrow> int \<times> int \<times> int" where
  "child_coords l p k =
     (case p of (cx, cy, cz) \<Rightarrow> case k of (kx, ky, kz) \<Rightarrow>
        (cx * 2 ^ l + int kx, cy * 2 ^ l + int ky, cz * 2 ^ l + int kz))"

text \<open>
  Modelled from the spec: the builder that fills \<^verbatim>\<open>entries\<close> and \<^verbatim>\<open>cells\<close> is not among
  the sources. The entry at index \<open>i\<close> stands for the cube of side \<open>2 ^ r\<close> at position
  \<open>p\<close>. A leaf entry (\<^verbatim>\<open>log_dim == 0\<close>) holds the index of a cell of the cell array whose
  inclusive bounds contain that cube. An internal entry of depth \<open>l \<le> r\<close> holds the base
  index of a block of \<open>8 ^ l\<close> child entries, one for each cube of side \<open>2 ^ (r - l)\<close>
  inside its own, addressed by the local coordinates.
\<close>

function wf_node :: "Entry list \<Rightarrow> Cell list \<Rightarrow> nat \<Rightarrow> nat \<Rightarrow> int \<times> int \<times> int \<Rightarrow> bool" where
  "wf_node es cells r i p =
     (if i < length es then
        (let l = unat (e_log_dim (es ! i)); b = unat (e_begin (es ! i)) in
         if l = 0 then b < length cells \<and> cube_in_cell (cells ! b) r p
         else if l \<le> r then
           list_all (\<lambda>k. wf_node es cells (r - l) (child_index l b k) (child_coords l p k))
             (cube_offsets l)
         else False)
      else False)"
  by pat_completeness auto
termination
  by (relation "measure (\<lambda>(es, cells, r, i, p). r)") auto

declare wf_node.simps [simp del]

text \<open>The top-level cubes of a grid, and the index of the entry of each.\<close>

definition top_cubes :: "ivec3 \<Rightarrow> (nat \<times> nat \<times> nat) list" where
  "top_cubes dims =
     [(cx, cy, cz). cz \<leftarrow> [0 ..< nat (sint (iz dims))], cy \<leftarrow> [0 ..< nat (sint (iy dims))],
                    cx \<leftarrow> [0 ..< nat (sint (ix dims))]]"

definition top_offset :: "ivec3 \<Rightarrow> nat \<times> nat \<times> nat \<Rightarrow> nat" where
  "top_offset dims k =
     (case k of (cx, cy, cz) \<Rightarrow> cx + nat (sint (ix dims)) * (cy + nat (sint (iy dims)) * cz))"

definition cube_pos :: "nat \<times> nat \<times> nat \<Rightarrow> int \<times> int \<times> int" where
  "cube_pos k = (case k of (cx, cy, cz) \<Rightarrow> (int cx, int cy, int cz))"

text \<open>The index \<^verbatim>\<open>lookup_entry\<close> computes for the top-level entry of a voxel.\<close>

definition top_index :: "int32 \<Rightarrow> ivec3 \<Rightarrow> ivec3 \<Rightarrow> int" where
  "top_index shift dims v =
     sint (signed_drop_bit (nat (sint shift)) (ix v) +
           ix dims * (signed_drop_bit (nat (sint shift)) (iy v) +
                      iy dims * signed_drop_bit (nat (sint shift)) (iz v)))"

text \<open>The bounds of a cell lie inside the grid of \<open>dims * 2 ^ shift\<close> voxels per axis.\<close>

definition cell_in_domain :: "int32 \<Rightarrow> ivec3 \<Rightarrow> Cell \<Rightarrow> bool" where
  "cell_in_domain shift dims c =
     (0 \<le> sint (ix (c_min c)) \<and> sint (ix (c_max c)) < sint (ix dims) * 2 ^ nat (sint shift) \<and>
      0 \<le> sint (iy (c_min c)) \<and> sint (iy (c_max c)) < sint (iy dims) * 2 ^ nat (sint shift) \<and>
      0 \<le> sint (iz (c_min c)) \<and> sint (iz (c_max c)) < sint (iz dims) * 2 ^ nat (sint shift))"

text \<open>Two cells whose inclusive bounds share a voxel.\<close>

definition cells_overlap :: "Cell \<Rightarrow> Cell \<Rightarrow> bool" where
  "cells_overlap a b =
     (max (sint (ix (c_min a))) (sint (ix (c_min b))) \<le> min (sint (ix (c_max a))) (sint (ix (c_max b))) \<and>
      max (sint (iy (c_min a))) (sint (iy (c_min b))) \<le> min (sint (iy (c_max a))) (sint (iy (c_max b))) \<and>
      max (sint (iz (c_min a))) (sint (iz (c_min b))) \<le> min (sint (iz (c_max a))) (sint (iz (c_max b))))"

text \<open>
  The entries alone: \<open>n\<close> top-level entries at the start of the array, each the root of
  a well-formed block structure for the whole shift.
\<close>

definition wf_entries :: "Entry list \<Rightarrow> int32 \<Rightarrow> nat \<Rightarrow> bool" where
  "wf_entries es shift n =
     (0 \<le> sint shift \<and> sint shift < 32 \<and> list_all (wf_block es (nat (sint shift))) [0 ..< n])"

text \<open>
  Modelled from the spec: the builder is not among the sources. A frozen grid is
  well-formed when \<^verbatim>\<open>shift\<close> is a shift count, \<^verbatim>\<open>dims\<close> is positive, the entry array can
  be indexed by an \<^verbatim>\<open>int\<close>, every top-level cube has a well-formed entry at its index
  \<open>x + dims.x * (y + dims.y * z)\<close>, every cell lies inside the grid and no two cells
  share a voxel.
\<close>

definition wf_grid :: "Entry list \<Rightarrow> Cell list \<Rightarrow> int32 \<Rightarrow> ivec3 \<Rightarrow> bool" where
  "wf_grid es cells shift dims =
     (0 \<le> sint shift \<and> sint shift < 32 \<and>
      0 < sint (ix dims) \<and> 0 < sint (iy dims) \<and> 0 < sint (iz dims) \<and>
      length es < 2 ^ 31 \<and>
      list_all (\<lambda>k. wf_node es cells (nat (sint shift)) (top_offset dims k) (cube_pos k))
        (top_cubes dims) \<and>
      list_all (cell_in_domain shift dims) cells \<and>
      list_all (\<lambda>i. list_all (\<lambda>j. i = j \<or> \<not> cells_overlap (cells ! i) (cells ! j))
                       [0 ..< length cells])
        [0 ..< length cells])"

text \<open>
  A small grid: \<open>2 \<times> 1 \<times> 1\<close> top-level cubes of side 2 (\<^verbatim>\<open>shift = 1\<close>). The first is
  the leaf of cell 0; the second is internal with \<^verbatim>\<open>log_dim = 1\<close> and its block of 8
  children starts at index 2: the four voxels with \<open>z = 0\<close> belong to cell 1 and the
  four with \<open>z = 1\<close> to cell 2.
\<close>

definition example_entries :: "Entry list" where
  "example_entries =
     [\<lparr>e_log_dim = 0, e_begin = 0\<rparr>, \<lparr>e_log_dim = 1, e_begin = 2\<rparr>,
      \<lparr>e_log_dim = 0, e_begin = 1\<rparr>, \<lparr>e_log_dim = 0, e_begin = 1\<rparr>,
      \<lparr>e_log_dim = 0, e_begin = 1\<rparr>, \<lparr>e_log_dim = 0, e_begin = 1\<rparr>,
      \<lparr>e_log_dim = 0, e_begin = 2\<rparr>, \<lparr>e_log_dim = 0, e_begin = 2\<rparr>,
      \<lparr>e_log_dim = 0, e_begin = 2\<rparr>, \<lparr>e_log_dim = 0, e_begin = 2\<rparr>]"

definition example_cells :: "Cell list" where
  "example_cells =
     [\<lparr>c_min = \<lparr>ix = 0, iy = 0, iz = 0\<rparr>, c_begin = 0,
       c_max = \<lparr>ix = 1, iy = 1, iz = 1\<rparr>, c_end = 0\<rparr>,
      \<lparr>c_min = \<lparr>ix = 2, iy = 0, iz = 0\<rparr>, c_begin = 0,
       c_max = \<lparr>ix = 3, iy = 1, iz = 0\<rparr>, c_end = 0\<rparr>,
      \<lparr>c_min = \<lparr>ix = 2, iy = 0, iz = 1\<rparr>, c_begin = 0,
       c_max = \<lparr>ix = 3, iy = 1, iz = 1\<rparr>, c_end = 0\<rparr>]"

definition example_dims :: ivec3 where
  "example_dims = \<lparr>ix = 2, iy = 1, iz = 1\<rparr>"

section \<open>Properties of reference enumeration\<close>

lemma ref_slice_empty: "\<not> b <s e \<Longrightarrow> ref_slice ref_ids b e = []"
  by (simp add: ref_slice_def word_sless_alt)

lemma ref_slice_step:
  assumes "b <s e" and "0 \<le> sint b"
  shows "ref_slice ref_ids b e = ref_ids ! nat (sint b) # ref_slice ref_ids (b + 1) e"
proof -
  from assms(1) have lt: "sint b < sint e" by (simp add: word_sless_alt)
  have s1: "sint (b + 1) = sint b + 1" using assms(1) by (rule sint_succ)
  have "nat (sint b) < nat (sint e)" using lt assms(2) by simp
  then have "[nat (sint b) ..< nat (sint e)] = nat (sint b) # [Suc (nat (sint b)) ..< nat (sint e)]"
    by (rule upt_conv_Cons)
  moreover have "nat (sint (b + 1)) = Suc (nat (sint b))" using s1 assms(2) by simp
  ultimately show ?thesis by (simp add: ref_slice_def)
qed

lemma length_ref_slice: "length (ref_slice ref_ids b e) = nat (sint e) - nat (sint b)"
  by (simp add: ref_slice_def)

text \<open>
  The loop of the \<^verbatim>\<open>Cell\<close> variant applies \<open>f\<close> to the reference in hand and then to
  the rest of the slice, up to the first negative value.
\<close>

lemma foreach_loop_char:
  "(cur <s e \<longrightarrow> 0 \<le> sint cur \<and> nat (sint e) \<le> length ref_ids) \<Longrightarrow>
   foreach_loop ref_ids f e cur ref s =
     Some (fold f (takeWhile is_ref (ref # ref_slice ref_ids cur e)) s)"
proof (induction ref_ids f e cur ref s rule: foreach_loop.induct)
  case (1 ref_ids f e cur ref s)
  show ?case
  proof (cases "0 \<le>s ref")
    case False
    then show ?thesis by (subst foreach_loop.simps) (simp add: is_ref_def)
  next
    case nonneg: True
    then have r: "is_ref ref" by (simp add: is_ref_def)
    show ?thesis
    proof (cases "cur <s e")
      case True
      with "1.prems" have b: "0 \<le> sint cur" "nat (sint e) \<le> length ref_ids" by simp_all
      from True have lt: "sint cur < sint e" by (simp add: word_sless_alt)
      have rd: "read_ref ref_ids cur = Some (ref_ids ! nat (sint cur))"
        using b lt by (simp add: read_ref_def)
      have ft: "fetch_ref ref_ids e cur = Some (ref_ids ! nat (sint cur), cur + 1)"
        using True rd by (simp add: fetch_ref_def)
      have s1: "sint (cur + 1) = sint cur + 1" using True by (rule sint_succ)
      have pre: "cur + 1 <s e \<longrightarrow> 0 \<le> sint (cur + 1) \<and> nat (sint e) \<le> length ref_ids"
        using b s1 by simp
      have ih: "foreach_loop ref_ids f e (cur + 1) (ref_ids ! nat (sint cur)) (f ref s) =
          Some (fold f (takeWhile is_ref
                  (ref_ids ! nat (sint cur) # ref_slice ref_ids (cur + 1) e)) (f ref s))"
        using "1.IH" [OF nonneg ft refl pre] .
      have "foreach_loop ref_ids f e cur ref s =
          foreach_loop ref_ids f e (cur + 1) (ref_ids ! nat (sint cur)) (f ref s)"
        using nonneg ft by (subst foreach_loop.simps) simp
      also note ih
      finally show ?thesis
        using r ref_slice_step [OF True b(1)] by simp
    next
      case False
      then have ft: "fetch_ref ref_ids e cur = Some (- 1, cur)" by (simp add: fetch_ref_def)
      have neg: "\<not> 0 \<le>s (- 1 :: int32)" by (simp add: word_sle_eq)
      have "foreach_loop ref_ids f e cur ref s = foreach_loop ref_ids f e cur (- 1) (f ref s)"
        using nonneg ft by (subst foreach_loop.simps) simp
      also have "\<dots> = Some (f ref s)" using neg by (subst foreach_loop.simps) simp
      finally show ?thesis using r False by (simp add: ref_slice_empty)
    qed
  qed
qed

lemma foreach_ref_char:
  assumes "c_begin c <s c_end c \<longrightarrow>
             0 \<le> sint (c_begin c) \<and> nat (sint (c_end c)) \<le> length ref_ids"
  shows "foreach_ref c ref_ids f s =
           Some (fold f (takeWhile is_ref (ref_slice ref_ids (c_begin c) (c_end c))) s,
                 c_end c - c_begin c)"
proof (cases "c_begin c <s c_end c")
  case True
  with assms have b: "0 \<le> sint (c_begin c)" "nat (sint (c_end c)) \<le> length ref_ids"
    by simp_all
  from True have lt: "sint (c_begin c) < sint (c_end c)" by (simp add: word_sless_alt)
  have ft: "fetch_ref ref_ids (c_end c) (c_begin c) =
      Some (ref_ids ! nat (sint (c_begin c)), c_begin c + 1)"
    using True b lt by (simp add: fetch_ref_def read_ref_def)
  have s1: "sint (c_begin c + 1) = sint (c_begin c) + 1" using True by (rule sint_succ)
  have pre: "c_begin c + 1 <s c_end c \<longrightarrow>
      0 \<le> sint (c_begin c + 1) \<and> nat (sint (c_end c)) \<le> length ref_ids"
    using b s1 by simp
  show ?thesis
    using ft foreach_loop_char [OF pre, of f "ref_ids ! nat (sint (c_begin c))" s]
      ref_slice_step [OF True b(1), of ref_ids]
    by (simp add: foreach_ref_def)
next
  case False
  then have ft: "fetch_ref ref_ids (c_end c) (c_begin c) = Some (- 1, c_begin c)"
    by (simp add: fetch_ref_def)
  have neg: "\<not> 0 \<le>s (- 1 :: int32)" by (simp add: word_sle_eq)
  have "foreach_loop ref_ids f (c_end c) (c_begin c) (- 1) s = Some s"
    using neg by (subst foreach_loop.simps) simp
  with ft False show ?thesis by (simp add: foreach_ref_def ref_slice_empty)
qed

lemma idx_succ_bound: "nat i < n \<Longrightarrow> n < 2 ^ 31 \<Longrightarrow> 0 \<le> i \<Longrightarrow> i + 1 < (2 ^ 31 :: int)"
proof -
  assume a: "nat i < n" "n < 2 ^ 31" "0 \<le> i"
  then have "nat i + 1 < 2 ^ 31" by simp
  then have "int (nat i + 1) < int (2 ^ 31)" by (simp only: of_nat_less_iff)
  with a(3) show ?thesis by simp
qed

text \<open>
  The loop of the \<^verbatim>\<open>SmallCell\<close> variant applies \<open>f\<close> to the reference in hand and to
  the stored values that follow, up to the first negative one, and leaves \<^verbatim>\<open>cur\<close> one
  past the last value it read.
\<close>

lemma foreach_small_loop_char:
  "length ref_ids < 2 ^ 31 \<Longrightarrow>
   (is_ref ref \<longrightarrow> 0 \<le> sint cur \<and> (\<exists>x \<in> set (drop (nat (sint cur)) ref_ids). \<not> is_ref x)) \<Longrightarrow>
   foreach_small_loop ref_ids f cur ref s =
     Some (fold f (takeWhile is_ref (ref # drop (nat (sint cur)) ref_ids)) s,
           cur + of_nat (length (takeWhile is_ref (ref # drop (nat (sint cur)) ref_ids))))"
proof (induction ref_ids f cur ref s rule: foreach_small_loop.induct)
  case (1 ref_ids f cur ref s)
  show ?case
  proof (cases "0 \<le>s ref")
    case False
    then show ?thesis by (subst foreach_small_loop.simps) (simp add: is_ref_def)
  next
    case nonneg: True
    then have r: "is_ref ref" by (simp add: is_ref_def)
    with "1.prems" have nn: "0 \<le> sint cur"
      and ex: "\<exists>x \<in> set (drop (nat (sint cur)) ref_ids). \<not> is_ref x" by simp_all
    let ?n = "nat (sint cur)"
    from ex have lt: "?n < length ref_ids" by (cases "?n < length ref_ids") auto
    let ?next = "ref_ids ! ?n"
    have rd: "read_ref ref_ids cur = Some ?next" using nn lt by (simp add: read_ref_def)
    have dr: "drop ?n ref_ids = ?next # drop (Suc ?n) ref_ids"
      using lt by (simp add: Cons_nth_drop_Suc)
    have "sint cur + 1 < 2 ^ 31" using lt "1.prems"(1) nn by (rule idx_succ_bound)
    moreover have "- (2 ^ 31) \<le> sint cur + 1" using nn by simp
    ultimately have s1: "sint (cur + 1) = sint cur + 1"
      using sint_add_no_ovf [of cur 1] by simp
    then have n1: "nat (sint (cur + 1)) = Suc ?n" using nn by simp
    have pre: "is_ref ?next \<longrightarrow>
        0 \<le> sint (cur + 1) \<and> (\<exists>x \<in> set (drop (nat (sint (cur + 1))) ref_ids). \<not> is_ref x)"
      using ex dr s1 n1 nn by auto
    have ih: "foreach_small_loop ref_ids f (cur + 1) ?next (f ref s) =
        Some (fold f (takeWhile is_ref (?next # drop (Suc ?n) ref_ids)) (f ref s),
              cur + 1 + of_nat (length (takeWhile is_ref (?next # drop (Suc ?n) ref_ids))))"
      using "1.IH" [OF nonneg rd "1.prems"(1) pre] by (simp only: n1)
    have "foreach_small_loop ref_ids f cur ref s =
        foreach_small_loop ref_ids f (cur + 1) ?next (f ref s)"
      using nonneg rd by (subst foreach_small_loop.simps) simp
    also note ih
    finally show ?thesis using r by (simp only: dr) simp
  qed
qed

section \<open>Properties of the codec\<close>

lemma low_lane: "ucast (ucast (a :: uint16) OR push_bit 16 (ucast (b :: uint16)) :: uint32) = a"
  by (rule bit_word_eqI) (auto simp: bit_simps)

lemma high_lane:
  "ucast (drop_bit 16 (ucast (a :: uint16) OR push_bit 16 (ucast (b :: uint16)) :: uint32)) = b"
  by (rule bit_word_eqI) (auto simp: bit_simps dest: bit_imp_le_length)

lemma lanes_disjoint:
  "(ucast (a :: uint16) OR push_bit 16 (ucast (b :: uint16)) :: uint32) =
     ucast a + push_bit 16 (ucast b)"
  by (rule disjunctive_add [symmetric]) (auto simp: bit_simps dest: bit_imp_le_length)

lemma unat16_less: "unat (a :: uint16) < 65536"
  using unsigned_less [of a] by simp

lemma unat_lanes:
  "unat (ucast (a :: uint16) OR push_bit 16 (ucast (b :: uint16)) :: uint32) =
     unat a + 65536 * unat b"
proof -
  have a: "unat a < 65536" by (rule unat16_less)
  have b: "unat b < 65536" by (rule unat16_less)
  have a32: "unat a < 2 ^ 32" and b32: "unat b < 2 ^ 32" using a b by simp_all
  have ua: "unat (ucast a :: uint32) = unat a"
    by (simp add: unsigned_ucast_eq take_bit_nat_eq_self [OF a32])
  have ucb: "unat (ucast b :: uint32) = unat b"
    by (simp add: unsigned_ucast_eq take_bit_nat_eq_self [OF b32])
  have sh: "65536 * unat b < 2 ^ 32" using b by simp
  have "unat (push_bit 16 (ucast b :: uint32)) =
      take_bit 32 (push_bit 16 (unat (ucast b :: uint32)))"
    by (subst unsigned_push_bit_eq) simp
  also have "\<dots> = take_bit 32 (65536 * unat b)"
    by (simp add: ucb push_bit_eq_mult mult.commute)
  also have "\<dots> = 65536 * unat b" using sh by (rule take_bit_nat_eq_self)
  finally have ub: "unat (push_bit 16 (ucast b :: uint32)) = 65536 * unat b" .
  have "unat (ucast a + push_bit 16 (ucast b) :: uint32) =
      unat (ucast a :: uint32) + unat (push_bit 16 (ucast b :: uint32))"
    using a b by (subst unat_add_lem [THEN iffD1]) (simp_all add: ua ub)
  then show ?thesis by (simp add: lanes_disjoint ua ub)
qed

section \<open>Properties of range and dimension sizing\<close>


















section \<open>Properties of the lookup\<close>

lemma uint_shift_mask:
  fixes w :: int32
  assumes "l \<le> 32"
  shows "uint (signed_drop_bit c w AND (push_bit l 1 - 1)) = (sint w div 2 ^ c) mod 2 ^ l"
proof -
  have m: "(push_bit l 1 - 1 :: int32) = mask l"
    by (simp add: mask_eq_exp_minus_1 push_bit_eq_mult)
  have "uint (signed_drop_bit c w AND mask l) = take_bit l (uint (signed_drop_bit c w))"
    by (simp add: take_bit_eq_mask [symmetric] unsigned_take_bit_eq)
  also have "\<dots> = take_bit l (take_bit 32 (sint (signed_drop_bit c w)))"
    by (simp add: uint_sint)
  also have "\<dots> = take_bit l (sint (signed_drop_bit c w))"
    using assms by (simp add: min_def)
  also have "\<dots> = take_bit l (drop_bit c (sint w))"
    by (simp add: sint_signed_drop_bit_eq)
  also have "\<dots> = (sint w div 2 ^ c) mod 2 ^ l"
    by (simp add: take_bit_eq_mod drop_bit_eq_div)
  finally show ?thesis by (simp only: m)
qed

lemma uint_add_small:
  "uint a + uint b < 2 ^ 32 \<Longrightarrow> uint (a + b :: uint32) = uint a + uint b"
  by (simp add: uint_add_lem [THEN iffD1])

lemma uint_push_small:
  assumes "uint a * 2 ^ l < 2 ^ 32"
  shows "uint (push_bit l a :: uint32) = uint a * 2 ^ l"
proof -
  have "uint (push_bit l a) = take_bit 32 (push_bit l (uint a))"
    by (subst unsigned_push_bit_eq) simp
  also have "\<dots> = take_bit 32 (uint a * 2 ^ l)" by (simp add: push_bit_eq_mult)
  also have "\<dots> = uint a * 2 ^ l"
    using assms by (simp add: take_bit_int_eq_self)
  finally show ?thesis .
qed

lemma uint_child_index:
  fixes start kx ky kz :: uint32
  assumes l: "l = 1 \<or> l = 2 \<or> l = 3"
    and b: "uint start < 2 ^ 30"
    and k: "uint kx < 2 ^ l" "uint ky < 2 ^ l" "uint kz < 2 ^ l"
  shows "uint (start + kx + push_bit l (ky + push_bit l kz)) =
           uint start + uint kx + 2 ^ l * (uint ky + 2 ^ l * uint kz)"
proof -
  have p: "(2 :: int) ^ l \<le> 8" using l by auto
  have nn: "0 \<le> uint kx" "0 \<le> uint ky" "0 \<le> uint kz" by simp_all
  from k p have k8: "uint kx < 8" "uint ky < 8" "uint kz < 8" by linarith+
  have m1: "uint kz * 2 ^ l \<le> 7 * 8"
    using k8 p nn by (intro mult_mono) simp_all
  then have a: "uint (push_bit l kz) = uint kz * 2 ^ l"
    by (intro uint_push_small) simp
  have bsum: "uint (ky + push_bit l kz) = uint ky + uint kz * 2 ^ l"
    using a k8 m1 by (subst uint_add_small) simp_all
  have m2: "(uint ky + uint kz * 2 ^ l) * 2 ^ l \<le> 63 * 8"
    using k8 m1 p nn by (intro mult_mono) simp_all
  then have "uint (ky + push_bit l kz) * 2 ^ l < 2 ^ 32" by (simp add: bsum)
  then have "uint (push_bit l (ky + push_bit l kz)) = uint (ky + push_bit l kz) * 2 ^ l"
    by (rule uint_push_small)
  then have c: "uint (push_bit l (ky + push_bit l kz)) = (uint ky + uint kz * 2 ^ l) * 2 ^ l"
    by (simp only: bsum)
  have dsum: "uint (start + kx) = uint start + uint kx"
    using b k8 by (subst uint_add_small) simp_all
  have "uint (start + kx + push_bit l (ky + push_bit l kz)) =
      uint start + uint kx + (uint ky + uint kz * 2 ^ l) * 2 ^ l"
    using b k8 m2 by (subst uint_add_small) (simp_all add: dsum c)
  then show ?thesis by (simp add: algebra_simps)
qed

lemma unat_log_dim: "unat (ucast (l :: 2 word) :: uint32) = unat l \<and> unat l < 4"
proof -
  have lt: "unat l < 4" using unsigned_less [of l] by simp
  then have "unat l < 2 ^ 32" by simp
  then have "unat (ucast l :: uint32) = unat l"
    by (simp add: unsigned_ucast_eq take_bit_nat_eq_self)
  with lt show ?thesis by simp
qed

lemma uint_begin: "uint (ucast (b :: 30 word) :: uint32) = uint b \<and> uint b < 2 ^ 30"
proof -
  have lt: "uint b < 2 ^ 30" using uint_lt2p [of b] by simp
  then have "uint b < 2 ^ 32" by (rule less_trans) simp
  then have "uint (ucast b :: uint32) = uint b"
    by (simp add: unsigned_ucast_eq take_bit_int_eq_self)
  with lt show ?thesis by simp
qed

lemma lookup_loop_leaf:
  "e_log_dim e = 0 \<Longrightarrow> lookup_loop es shift v e d = Some (ucast (e_begin e))"
  by (subst lookup_loop.simps) simp

lemma lookup_loop_step:
  assumes l: "unat (e_log_dim e) = l" "0 < l"
    and c: "sint (shift - d) = int c" "c < 32"
    and child: "child_index l (unat (e_begin e)) (local_coords l c v) < length es"
  shows "lookup_loop es shift v e d =
     lookup_loop es shift v (es ! child_index l (unat (e_begin e)) (local_coords l c v))
       (d + ucast (e_log_dim (es ! child_index l (unat (e_begin e)) (local_coords l c v))))"
proof -
  let ?ld = "ucast (e_log_dim e) :: uint32"
  let ?start = "ucast (e_begin e) :: uint32"
  let ?msk = "push_bit l 1 - 1 :: int32"
  let ?k = "\<lparr>ix = signed_drop_bit c (ix v) AND ?msk, iy = signed_drop_bit c (iy v) AND ?msk,
             iz = signed_drop_bit c (iz v) AND ?msk\<rparr>"
  let ?n = "child_index l (unat (e_begin e)) (local_coords l c v)"
  from unat_log_dim [of "e_log_dim e"] l
  have ul: "unat ?ld = l" and l4: "l < 4" by simp_all
  with l(2) have l123: "l = 1 \<or> l = 2 \<or> l = 3" by arith
  from ul l(2) have nz: "?ld \<noteq> 0" by auto
  have sh: "shr_ivec3 v (shift - d) =
      Some \<lparr>ix = signed_drop_bit c (ix v), iy = signed_drop_bit c (iy v),
            iz = signed_drop_bit c (iz v)\<rparr>"
    using c by (simp add: shr_ivec3_def shr_int_def)
  have l32: "l \<le> 32" using l4 by simp
  have kx: "uint (ix ?k) = (sint (ix v) div 2 ^ c) mod 2 ^ l"
    and ky: "uint (iy ?k) = (sint (iy v) div 2 ^ c) mod 2 ^ l"
    and kz: "uint (iz ?k) = (sint (iz v) div 2 ^ c) mod 2 ^ l"
    using uint_shift_mask [OF l32] by simp_all
  have kb: "uint (ix ?k) < 2 ^ l" "uint (iy ?k) < 2 ^ l" "uint (iz ?k) < 2 ^ l"
    by (simp_all only: kx ky kz) simp_all
  from uint_begin [of "e_begin e"]
  have ub: "uint ?start = uint (e_begin e)" and b30: "uint ?start < 2 ^ 30" by simp_all
  have "uint (?start + ix ?k + push_bit l (iy ?k + push_bit l (iz ?k))) =
      uint ?start + uint (ix ?k) + 2 ^ l * (uint (iy ?k) + 2 ^ l * uint (iz ?k))"
    using l123 b30 kb by (rule uint_child_index)
  also have "\<dots> = int ?n"
    by (simp only: kx ky kz ub) (simp add: child_index_def child_offset_def local_coords_def)
  finally have "uint (?start + ix ?k + push_bit l (iy ?k + push_bit l (iz ?k))) = int ?n" .
  then have idx: "uint (?start + (signed_drop_bit c (ix v) AND ?msk) +
      push_bit l ((signed_drop_bit c (iy v) AND ?msk) +
                  push_bit l (signed_drop_bit c (iz v) AND ?msk))) = int ?n"
    by (simp only: ivec3.select_convs)
  have rd: "entry_at es (int ?n) = Some (es ! ?n)"
    using child by (simp add: entry_at_def)
  show ?thesis
    apply (subst lookup_loop.simps)
    apply (simp only: Let_def nz ul sh and_ivec3_def ivec3.select_convs option.simps idx rd
        if_True not_False_eq_True simp_thms)
    done
qed

lemma child_offset_bound:
  assumes "kx < 2 ^ l" "ky < 2 ^ l" "kz < 2 ^ l"
  shows "child_offset l (kx, ky, kz) < (8 :: nat) ^ l"
proof -
  let ?s = "(2 :: nat) ^ l"
  from assms have "ky + ?s * kz \<le> (?s - 1) + ?s * (?s - 1)"
    by (intro add_mono mult_le_mono) simp_all
  also have "\<dots> = ?s * ?s - 1" by (simp add: algebra_simps)
  finally have a: "ky + ?s * kz \<le> ?s * ?s - 1" .
  from assms a have "kx + ?s * (ky + ?s * kz) \<le> (?s - 1) + ?s * (?s * ?s - 1)"
    by (intro add_mono mult_le_mono) simp_all
  also have "\<dots> = ?s * ?s * ?s - 1" by (simp add: algebra_simps)
  also have "\<dots> < ?s * ?s * ?s" by simp
  also have "?s * ?s * ?s = 8 ^ l"
  proof -
    have "(8 :: nat) = 2 * 2 * 2" by simp
    then show ?thesis by (simp only: power_mult_distrib)
  qed
  finally show ?thesis by (simp add: child_offset_def)
qed

lemma local_coords_bound: "child_offset l (local_coords l c v) < 8 ^ l"
proof -
  have "nat (k mod 2 ^ l) < 2 ^ l" for k :: int
  proof -
    have "k mod 2 ^ l < 2 ^ l" by simp
    moreover have "0 \<le> k mod 2 ^ l" by simp
    ultimately show ?thesis by (simp add: nat_less_iff)
  qed
  then show ?thesis unfolding local_coords_def by (intro child_offset_bound)
qed

lemma uint_pos_log_dim: "e_log_dim e \<noteq> 0 \<Longrightarrow> 0 < unat (e_log_dim e)"
  by (simp add: unat_gt_0)

lemma depth_after_step:
  fixes shift d :: uint32
  assumes "sint (shift - d) = int c"
  shows "sint (shift - (d + ucast (l' :: 2 word))) = int c - int (unat l')"
proof -
  have eq: "shift - (d + ucast l') = (shift - d) - ucast l'" by simp
  have "0 \<le> sint (shift - d)" using assms by simp
  then have "sint ((shift - d) - ucast l') = sint (shift - d) - uint l'"
    by (rule sint_sub_log_dim)
  with assms show ?thesis by (simp add: eq)
qed

text \<open>On a well-formed block structure the descent reaches a leaf entry.\<close>

lemma lookup_loop_wf_block:
  "wf_block es r i \<Longrightarrow> r < 32 \<Longrightarrow>
   (e_log_dim (es ! i) \<noteq> 0 \<longrightarrow> sint (shift - d) = int r - int (unat (e_log_dim (es ! i)))) \<Longrightarrow>
   \<exists>j < length es. e_log_dim (es ! j) = 0 \<and>
     lookup_loop es shift v (es ! i) d = Some (ucast (e_begin (es ! j)))"
proof (induction es r i arbitrary: d rule: wf_block.induct)
  case (1 es r i)
  let ?e = "es ! i"
  let ?l = "unat (e_log_dim ?e)"
  from "1.prems"(1) have i: "i < length es"
    by (subst (asm) wf_block.simps) (simp split: if_splits)
  show ?case
  proof (cases "e_log_dim ?e = 0")
    case True
    with i show ?thesis by (auto intro!: exI [of _ i] simp: lookup_loop_leaf)
  next
    case False
    then have lpos: "0 < ?l" by (rule uint_pos_log_dim)
    from "1.prems"(1) i lpos have lr: "?l \<le> r"
      and ch: "list_all (\<lambda>k. wf_block es (r - ?l) (unat (e_begin ?e) + k)) [0 ..< 8 ^ ?l]"
      by (subst (asm) wf_block.simps, simp add: Let_def split: if_splits)+
    let ?c = "r - ?l"
    let ?n = "child_index ?l (unat (e_begin ?e)) (local_coords ?l ?c v)"
    let ?off = "child_offset ?l (local_coords ?l ?c v)"
    have off: "?off < 8 ^ ?l" by (rule local_coords_bound)
    with ch have wfc: "wf_block es ?c (unat (e_begin ?e) + ?off)"
      by (simp add: list_all_iff)
    then have n: "?n < length es"
      by (subst (asm) wf_block.simps) (simp add: child_index_def split: if_splits)
    from False "1.prems"(3) lr have c: "sint (shift - d) = int ?c" by simp
    have c32: "?c < 32" using "1.prems"(2) by simp
    let ?d' = "d + ucast (e_log_dim (es ! ?n))"
    have step: "lookup_loop es shift v ?e d = lookup_loop es shift v (es ! ?n) ?d'"
      using refl lpos c c32 n by (rule lookup_loop_step)
    have pre: "e_log_dim (es ! ?n) \<noteq> 0 \<longrightarrow>
        sint (shift - ?d') = int ?c - int (unat (e_log_dim (es ! ?n)))"
      using depth_after_step [OF c] by simp
    have mem: "?off \<in> set [0 ..< 8 ^ ?l]" using off by simp
    have "\<exists>j < length es. e_log_dim (es ! j) = 0 \<and>
        lookup_loop es shift v (es ! (unat (e_begin ?e) + ?off)) ?d' =
          Some (ucast (e_begin (es ! j)))"
      using "1.IH" [OF i refl _ lr mem wfc c32] lpos pre
      by (simp add: child_index_def)
    then show ?thesis using step by (simp add: child_index_def)
  qed
qed

lemma set_cube_offsets:
  "set (cube_offsets l) = {(kx, ky, kz). kx < 2 ^ l \<and> ky < 2 ^ l \<and> kz < 2 ^ l}"
  by (fastforce simp: cube_offsets_def image_iff)

lemma local_coords_mem: "local_coords l c v \<in> set (cube_offsets l)"
proof -
  have "nat (k mod 2 ^ l) < 2 ^ l" for k :: int
  proof -
    have "k mod 2 ^ l < 2 ^ l" by simp
    moreover have "0 \<le> k mod 2 ^ l" by simp
    ultimately show ?thesis by (simp add: nat_less_iff)
  qed
  then show ?thesis by (simp add: local_coords_def set_cube_offsets)
qed

lemma div_split_pow2:
  fixes a :: int
  assumes "l \<le> r"
  shows "(a div 2 ^ r) * 2 ^ l + (a div 2 ^ (r - l)) mod 2 ^ l = a div 2 ^ (r - l)"
proof -
  have "(2 :: int) ^ r = 2 ^ (r - l) * 2 ^ l"
    using assms by (simp add: power_add [symmetric])
  then have "a div 2 ^ r = (a div 2 ^ (r - l)) div 2 ^ l"
    by (simp add: zdiv_zmult2_eq)
  then show ?thesis by (simp only: div_mult_mod_eq)
qed

lemma child_coords_voxel:
  assumes "l \<le> r"
  shows "child_coords l (voxel_cube r v) (local_coords l (r - l) v) = voxel_cube (r - l) v"
proof -
  have "a div 2 ^ r * 2 ^ l + int (nat ((a div 2 ^ (r - l)) mod 2 ^ l)) = a div 2 ^ (r - l)"
    for a :: int
    using div_split_pow2 [OF assms, of a] by simp
  then show ?thesis by (simp add: child_coords_def voxel_cube_def local_coords_def)
qed

lemma cube_in_cell_voxel:
  assumes "cube_in_cell c r (voxel_cube r v)"
  shows "in_cell c v"
proof -
  have lo: "a div 2 ^ r * 2 ^ r \<le> a" and hi: "a \<le> a div 2 ^ r * 2 ^ r + 2 ^ r - 1" for a :: int
  proof -
    have "a = a div 2 ^ r * 2 ^ r + a mod 2 ^ r" by (rule div_mult_mod_eq [symmetric])
    moreover have "0 \<le> a mod 2 ^ r" and "a mod 2 ^ r < 2 ^ r" by simp_all
    ultimately show "a div 2 ^ r * 2 ^ r \<le> a" and "a \<le> a div 2 ^ r * 2 ^ r + 2 ^ r - 1"
      by linarith+
  qed
  from assms lo [of "sint (ix v)"] hi [of "sint (ix v)"] lo [of "sint (iy v)"] hi [of "sint (iy v)"]
    lo [of "sint (iz v)"] hi [of "sint (iz v)"]
  show ?thesis
    unfolding cube_in_cell_def voxel_cube_def in_cell_def word_sle_eq prod.case
    by linarith
qed

text \<open>On a well-formed node the descent ends at a leaf whose cell contains the voxel.\<close>

lemma lookup_loop_wf_node:
  "wf_node es cells r i p \<Longrightarrow> r < 32 \<Longrightarrow> voxel_cube r v = p \<Longrightarrow>
   (e_log_dim (es ! i) \<noteq> 0 \<longrightarrow> sint (shift - d) = int r - int (unat (e_log_dim (es ! i)))) \<Longrightarrow>
   \<exists>b < length cells. in_cell (cells ! b) v \<and>
     lookup_loop es shift v (es ! i) d = Some (of_nat b)"
proof (induction es cells r i p arbitrary: d rule: wf_node.induct)
  case (1 es cells r i p)
  let ?e = "es ! i"
  let ?l = "unat (e_log_dim ?e)"
  let ?b = "unat (e_begin ?e)"
  from "1.prems"(1) have i: "i < length es"
    by (subst (asm) wf_node.simps) (simp split: if_splits)
  show ?case
  proof (cases "e_log_dim ?e = 0")
    case True
    with "1.prems"(1) i have b: "?b < length cells" and cu: "cube_in_cell (cells ! ?b) r p"
      by (subst (asm) wf_node.simps, simp add: Let_def)+
    from cu "1.prems"(3) have "cube_in_cell (cells ! ?b) r (voxel_cube r v)" by simp
    then have "in_cell (cells ! ?b) v" by (rule cube_in_cell_voxel)
    moreover have "lookup_loop es shift v ?e d = Some (of_nat ?b)"
      using True by (simp add: lookup_loop_leaf)
    ultimately show ?thesis using b by blast
  next
    case False
    then have lpos: "0 < ?l" by (rule uint_pos_log_dim)
    from "1.prems"(1) i lpos have lr: "?l \<le> r"
      and ch: "list_all (\<lambda>k. wf_node es cells (r - ?l) (child_index ?l ?b k) (child_coords ?l p k))
                (cube_offsets ?l)"
      by (subst (asm) wf_node.simps, simp add: Let_def split: if_splits)+
    let ?c = "r - ?l"
    let ?k = "local_coords ?l ?c v"
    let ?n = "child_index ?l ?b ?k"
    have mem: "?k \<in> set (cube_offsets ?l)" by (rule local_coords_mem)
    with ch have wfc: "wf_node es cells ?c ?n (child_coords ?l p ?k)"
      by (simp add: list_all_iff)
    then have n: "?n < length es"
      by (subst (asm) wf_node.simps) (simp split: if_splits)
    from False "1.prems"(4) lr have c: "sint (shift - d) = int ?c" by simp
    have c32: "?c < 32" using "1.prems"(2) by simp
    let ?d' = "d + ucast (e_log_dim (es ! ?n))"
    have step: "lookup_loop es shift v ?e d = lookup_loop es shift v (es ! ?n) ?d'"
      using refl lpos c c32 n by (rule lookup_loop_step)
    have pre: "e_log_dim (es ! ?n) \<noteq> 0 \<longrightarrow>
        sint (shift - ?d') = int ?c - int (unat (e_log_dim (es ! ?n)))"
      using depth_after_step [OF c] by simp
    have cube: "voxel_cube ?c v = child_coords ?l p ?k"
      using child_coords_voxel [OF lr, of v] "1.prems"(3) by simp
    have "\<exists>b < length cells. in_cell (cells ! b) v \<and>
        lookup_loop es shift v (es ! ?n) ?d' = Some (of_nat b)"
      using "1.IH" [OF i refl refl _ lr mem wfc c32 cube pre] lpos by simp
    then show ?thesis using step by simp
  qed
qed

lemma sint_eq_uint_small: "uint (w :: int32) < 2 ^ 31 \<Longrightarrow> sint w = uint w"
proof -
  assume a: "uint w < 2 ^ 31"
  have "- (2 ^ 31) \<le> uint w" by (rule order_trans [of _ 0]) simp_all
  then have "signed_take_bit 31 (uint w) = uint w" using a by (rule signed_take_bit_int_eq_self)
  then show ?thesis by (simp add: sint_uint)
qed

lemma lookup_entry_top:
  assumes shift: "0 \<le> sint shift" "sint shift < 32"
    and top: "top_index shift dims v = int n" "n < length es"
  shows "lookup_entry es shift dims v =
           lookup_loop es shift v (es ! n) (ucast (e_log_dim (es ! n)))"
  using assms by (simp add: lookup_entry_def shr_int_def top_index_def entry_at_def)

lemma initial_depth:
  fixes shift :: int32
  assumes "0 \<le> sint shift"
  shows "sint (shift - ucast (l :: 2 word)) = int (nat (sint shift)) - int (unat l)"
  using sint_sub_log_dim [OF assms, of l] assms by simp

lemma wf_block_index: "wf_block es r i \<Longrightarrow> i < length es"
  by (subst (asm) wf_block.simps) (simp split: if_splits)

lemma wf_node_index: "wf_node es cells r i p \<Longrightarrow> i < length es"
  by (subst (asm) wf_node.simps) (simp split: if_splits)

lemma in_cell_overlap: "in_cell a v \<Longrightarrow> in_cell b v \<Longrightarrow> cells_overlap a b"
  by (auto simp: in_cell_def cells_overlap_def word_sle_eq)

text \<open>
  For a voxel of the grid the top-level index is the index of its top-level cube; the
  \<^verbatim>\<open>int\<close> arithmetic does not overflow, since the index is below \<open>2 ^ 31\<close>.
\<close>

lemma top_index_voxel:
  fixes shift :: int32
  assumes dims: "0 < sint (ix dims)" "0 < sint (iy dims)" "0 < sint (iz dims)"
    and v: "0 \<le> sint (ix v)" "0 \<le> sint (iy v)" "0 \<le> sint (iz v)"
    and small: "top_offset dims (nat (sint (ix v) div 2 ^ s), nat (sint (iy v) div 2 ^ s),
                  nat (sint (iz v) div 2 ^ s)) < 2 ^ 31"
  shows "sint (signed_drop_bit s (ix v) + ix dims * (signed_drop_bit s (iy v) +
                 iy dims * signed_drop_bit s (iz v))) =
         int (top_offset dims (nat (sint (ix v) div 2 ^ s), nat (sint (iy v) div 2 ^ s),
                  nat (sint (iz v) div 2 ^ s)))"
proof -
  let ?cx = "sint (ix v) div 2 ^ s" and ?cy = "sint (iy v) div 2 ^ s"
    and ?cz = "sint (iz v) div 2 ^ s"
  let ?n = "top_offset dims (nat ?cx, nat ?cy, nat ?cz)"
  let ?w = "signed_drop_bit s (ix v) + ix dims * (signed_drop_bit s (iy v) +
      iy dims * signed_drop_bit s (iz v))"
  have c0: "0 \<le> ?cx" "0 \<le> ?cy" "0 \<le> ?cz" using v by (simp_all add: pos_imp_zdiv_nonneg_iff)
  have t: "uint (signed_drop_bit s a) = sint a div 2 ^ s" if "0 \<le> sint a" for a :: int32
  proof -
    have "sint (signed_drop_bit s a) = sint a div 2 ^ s"
      by (simp add: sint_signed_drop_bit_eq drop_bit_eq_div)
    moreover from that have "0 \<le> sint a div 2 ^ s" by (simp add: pos_imp_zdiv_nonneg_iff)
    ultimately show ?thesis using uint_eq_sint_nonneg [of "signed_drop_bit s a"] by simp
  qed
  have d: "uint (ix dims) = sint (ix dims)" "uint (iy dims) = sint (iy dims)"
    using dims by (simp_all add: uint_eq_sint_nonneg)
  have n: "int ?n = ?cx + sint (ix dims) * (?cy + sint (iy dims) * ?cz)"
    using c0 dims by (simp add: top_offset_def nat_mult_distrib nat_add_distrib)
  have "uint ?w = (?cx + sint (ix dims) * (?cy + sint (iy dims) * ?cz)) mod 2 ^ 32"
    using v by (simp add: uint_word_ariths mod_simps t d)
  also have "\<dots> = int ?n mod 2 ^ 32" by (simp only: n)
  also have "\<dots> = int ?n"
  proof -
    have "int ?n < 2 ^ 31" using small by (simp only: of_nat_less_numeral_power_cancel_iff)
    then have "int ?n < 2 ^ 32" by (rule less_trans) simp
    then show ?thesis by simp
  qed
  finally have u: "uint ?w = int ?n" .
  have "uint ?w < 2 ^ 31" using small by (simp only: u of_nat_less_numeral_power_cancel_iff)
  then have "sint ?w = uint ?w" by (rule sint_eq_uint_small)
  with u show ?thesis by simp
qed

section \<open>The claims\<close>

text \<open>
  C1. In a well-formed frozen grid, for every cell of the cell array and every voxel
  inside the inclusive bounds of that cell, \<^verbatim>\<open>lookup_entry\<close> returns the index of that
  cell.
\<close>

theorem lookup_entry_finds_cell:
  assumes wf: "wf_grid es cells shift dims"
    and c: "c < length cells"
    and v: "in_cell (cells ! c) v"
  shows "lookup_entry es shift dims v = Some (of_nat c)"
proof -
  let ?s = "nat (sint shift)"
  from wf have sh: "0 \<le> sint shift" "sint shift < 32"
    and dims: "0 < sint (ix dims)" "0 < sint (iy dims)" "0 < sint (iz dims)"
    and len: "length es < 2 ^ 31"
    and tops: "list_all (\<lambda>k. wf_node es cells ?s (top_offset dims k) (cube_pos k)) (top_cubes dims)"
    and dom: "list_all (cell_in_domain shift dims) cells"
    and disj: "list_all (\<lambda>i. list_all (\<lambda>j. i = j \<or> \<not> cells_overlap (cells ! i) (cells ! j))
                  [0 ..< length cells]) [0 ..< length cells]"
    by (simp_all add: wf_grid_def)
  from dom c have cd: "cell_in_domain shift dims (cells ! c)" by (simp add: list_all_length)
  let ?vx = "sint (ix v)" and ?vy = "sint (iy v)" and ?vz = "sint (iz v)"
  from cd v have v0: "0 \<le> ?vx" "0 \<le> ?vy" "0 \<le> ?vz"
    and vh: "?vx < sint (ix dims) * 2 ^ ?s" "?vy < sint (iy dims) * 2 ^ ?s"
      "?vz < sint (iz dims) * 2 ^ ?s"
    by (auto simp: cell_in_domain_def in_cell_def word_sle_eq)
  let ?cx = "?vx div 2 ^ ?s" and ?cy = "?vy div 2 ^ ?s" and ?cz = "?vz div 2 ^ ?s"
  have lt: "a div 2 ^ ?s < b" if "a < b * 2 ^ ?s" for a b :: int
  proof (rule ccontr)
    assume "\<not> a div 2 ^ ?s < b"
    then have "b * 2 ^ ?s \<le> a div 2 ^ ?s * 2 ^ ?s" by (intro mult_right_mono) simp_all
    moreover have "a = a div 2 ^ ?s * 2 ^ ?s + a mod 2 ^ ?s" by (rule div_mult_mod_eq [symmetric])
    moreover have "0 \<le> a mod 2 ^ ?s" by simp
    ultimately show False using that by linarith
  qed
  have c0: "0 \<le> ?cx" "0 \<le> ?cy" "0 \<le> ?cz" using v0 by (simp_all add: pos_imp_zdiv_nonneg_iff)
  have ch: "?cx < sint (ix dims)" "?cy < sint (iy dims)" "?cz < sint (iz dims)"
    using vh by (simp_all add: lt)
  let ?k = "(nat ?cx, nat ?cy, nat ?cz)"
  let ?n = "top_offset dims ?k"
  have mem: "?k \<in> set (top_cubes dims)"
    using c0 ch by (simp add: top_cubes_def image_iff nat_less_iff)
  with tops have node: "wf_node es cells ?s ?n (cube_pos ?k)" by (simp add: list_all_iff)
  then have n: "?n < length es" by (rule wf_node_index)
  from n len have small: "?n < 2 ^ 31" by (rule less_trans)
  have top: "top_index shift dims v = int ?n"
    unfolding top_index_def using dims v0 small by (rule top_index_voxel)
  have run: "lookup_entry es shift dims v =
      lookup_loop es shift v (es ! ?n) (ucast (e_log_dim (es ! ?n)))"
    using sh top n by (rule lookup_entry_top)
  have s32: "?s < 32" using sh by simp
  have cube: "voxel_cube ?s v = cube_pos ?k" using c0 by (simp add: voxel_cube_def cube_pos_def)
  have pre: "e_log_dim (es ! ?n) \<noteq> 0 \<longrightarrow>
      sint (shift - ucast (e_log_dim (es ! ?n))) = int ?s - int (unat (e_log_dim (es ! ?n)))"
    using initial_depth [OF sh(1)] by simp
  from lookup_loop_wf_node [OF node s32 cube pre] run
  obtain b where b: "b < length cells" and inb: "in_cell (cells ! b) v"
    and res: "lookup_entry es shift dims v = Some (of_nat b)" by auto
  from inb v have "cells_overlap (cells ! b) (cells ! c)" by (rule in_cell_overlap)
  moreover from disj b c have "b = c \<or> \<not> cells_overlap (cells ! b) (cells ! c)"
    by (simp add: list_all_iff)
  ultimately have "b = c" by simp
  with res show ?thesis by simp
qed

text \<open>In the small grid the voxel \<open>(3, 1, 1)\<close> lies in cell 2, and the lookup returns 2.\<close>

theorem lookup_entry_finds_cell_witness:
  "wf_grid example_entries example_cells 1 example_dims
   \<and> in_cell (example_cells ! 2) \<lparr>ix = 3, iy = 1, iz = 1\<rparr>
   \<and> lookup_entry example_entries 1 example_dims \<lparr>ix = 3, iy = 1, iz = 1\<rparr> = Some 2"
proof -
  have a: "top_cubes example_dims = [(0, 0, 0), (1, 0, 0)]" by code_simp
  have b: "wf_node example_entries example_cells 1 (top_offset example_dims (0, 0, 0))
      (cube_pos (0, 0, 0))" by code_simp
  have c: "wf_node example_entries example_cells 1 (top_offset example_dims (1, 0, 0))
      (cube_pos (1, 0, 0))" by code_simp
  have d: "list_all (cell_in_domain 1 example_dims) example_cells" by code_simp
  have e: "list_all (\<lambda>i. list_all (\<lambda>j. i = j \<or>
      \<not> cells_overlap (example_cells ! i) (example_cells ! j))
        [0 ..< length example_cells]) [0 ..< length example_cells]" by code_simp
  have f: "length example_entries < 2 ^ 31" by (simp add: example_entries_def)
  have g: "0 < sint (ix example_dims) \<and> 0 < sint (iy example_dims) \<and> 0 < sint (iz example_dims)"
    by (simp add: example_dims_def)
  have wf: "wf_grid example_entries example_cells 1 example_dims"
    unfolding wf_grid_def using a b c d e f g by simp
  have c: "2 < length example_cells" by (simp add: example_cells_def)
  have v: "in_cell (example_cells ! 2) \<lparr>ix = 3, iy = 1, iz = 1\<rparr>" by code_simp
  from lookup_entry_finds_cell [OF wf c v] wf v show ?thesis by simp
qed

text \<open>
  C2, as amended. For a \<^verbatim>\<open>Cell\<close> with \<^verbatim>\<open>begin \<le> end\<close> whose slice \<^verbatim>\<open>[begin, end)\<close> lies
  inside \<^verbatim>\<open>ref_ids\<close> and holds no negative value, \<^verbatim>\<open>foreach_ref\<close> applies \<open>f\<close> to exactly
  \<^verbatim>\<open>ref_ids[begin], ..., ref_ids[end - 1]\<close>, in stored order, and returns
  \<^verbatim>\<open>end - begin\<close>, which is the number of references visited. The one-ahead read changes
  neither the values visited nor their order.
\<close>

theorem foreach_ref_visits_slice:
  assumes ord: "c_begin c \<le>s c_end c"
    and inside: "c_begin c <s c_end c \<longrightarrow>
                   0 \<le> sint (c_begin c) \<and> nat (sint (c_end c)) \<le> length ref_ids"
    and refs: "\<forall>r \<in> set (ref_slice ref_ids (c_begin c) (c_end c)). is_ref r"
  shows "foreach_ref c ref_ids f s =
           Some (fold f (ref_slice ref_ids (c_begin c) (c_end c)) s, c_end c - c_begin c)
         \<and> sint (c_end c - c_begin c) = int (length (ref_slice ref_ids (c_begin c) (c_end c)))"
proof -
  let ?sl = "ref_slice ref_ids (c_begin c) (c_end c)"
  from refs have tw: "takeWhile is_ref ?sl = ?sl" by (simp add: takeWhile_eq_all_conv)
  have run: "foreach_ref c ref_ids f s = Some (fold f ?sl s, c_end c - c_begin c)"
    using foreach_ref_char [OF inside, of f s] by (simp only: tw)
  have cnt: "sint (c_end c - c_begin c) = int (length ?sl)"
  proof (cases "c_begin c <s c_end c")
    case True
    with inside have nn: "0 \<le> sint (c_begin c)" by simp
    from True have lt: "sint (c_begin c) < sint (c_end c)" by (simp add: word_sless_alt)
    have hi: "sint (c_end c) < 2 ^ 31" using sint_lt [of "c_end c"] by simp
    have "sint (c_end c - c_begin c) = sint (c_end c) - sint (c_begin c)"
      using nn lt hi by (simp add: sint_word_ariths signed_take_bit_int_eq_self)
    then show ?thesis using nn lt by (simp add: length_ref_slice)
  next
    case False
    with ord have "sint (c_begin c) = sint (c_end c)"
      by (simp add: word_sless_alt word_sle_eq)
    then have "c_begin c = c_end c" by (rule signed_word_eqI)
    then show ?thesis by (simp add: length_ref_slice)
  qed
  from run cnt show ?thesis by simp
qed

text \<open>
  The scenario of the spec: \<^verbatim>\<open>begin = 5\<close>, \<^verbatim>\<open>end = 9\<close> and \<^verbatim>\<open>ref_ids[5..9] = [3, 7, 2, 9]\<close>;
  the four references are visited in that order and 4 is returned.
\<close>

theorem foreach_ref_visits_slice_witness:
  "foreach_ref \<lparr>c_min = \<lparr>ix = 0, iy = 0, iz = 0\<rparr>, c_begin = 5,
                 c_max = \<lparr>ix = 1, iy = 1, iz = 1\<rparr>, c_end = 9\<rparr>
     [8, 8, 8, 8, 8, 3, 7, 2, 9, 8] record_ref [] = Some ([3, 7, 2, 9], 4)"
proof -
  let ?c = "\<lparr>c_min = \<lparr>ix = 0, iy = 0, iz = 0\<rparr>, c_begin = 5,
             c_max = \<lparr>ix = 1, iy = 1, iz = 1\<rparr>, c_end = 9 :: int32\<rparr>"
  let ?refs = "[8, 8, 8, 8, 8, 3, 7, 2, 9, 8] :: int32 list"
  have sl: "ref_slice ?refs 5 9 = [3, 7, 2, 9]"
    by (simp add: ref_slice_def upt_rec)
  have ord: "c_begin ?c \<le>s c_end ?c" by (simp add: word_sle_eq)
  have inside: "c_begin ?c <s c_end ?c \<longrightarrow>
      0 \<le> sint (c_begin ?c) \<and> nat (sint (c_end ?c)) \<le> length ?refs" by simp
  have refs: "\<forall>r \<in> set (ref_slice ?refs (c_begin ?c) (c_end ?c)). is_ref r"
    by (simp add: sl is_ref_def word_sle_eq)
  from foreach_ref_visits_slice [OF ord inside refs, of record_ref "[]"]
  show ?thesis by (simp add: sl record_ref_def)
qed

text \<open>
  C2 as stated fails: a negative value in the slice ends the visit, so the values after it
  are not visited and the count, still \<^verbatim>\<open>end - begin\<close>, is not the number visited.
\<close>

theorem foreach_ref_visits_slice_counterexample:
  "foreach_ref \<lparr>c_min = \<lparr>ix = 0, iy = 0, iz = 0\<rparr>, c_begin = 0,
                 c_max = \<lparr>ix = 1, iy = 1, iz = 1\<rparr>, c_end = 3\<rparr>
     [3, - 1, 2] record_ref [] = Some ([3], 3)
   \<and> ref_slice [3, - 1, 2] 0 3 = [3, - 1, 2]"
  by code_simp

text \<open>
  C3, as amended. For a \<^verbatim>\<open>SmallCell\<close> with \<^verbatim>\<open>begin \<ge> 0\<close> whose chain in \<^verbatim>\<open>ref_ids\<close> (an
  array that an \<^verbatim>\<open>int\<close> can index) ends at a negative sentinel, \<^verbatim>\<open>foreach_ref\<close> applies
  \<open>f\<close> to each reference of the chain, in chain order, stops at the sentinel and
  returns the number of stored values it has read: the chain length plus one, for the
  sentinel.
\<close>

theorem foreach_ref_small_visits_chain:
  assumes len: "length ref_ids < 2 ^ 31"
    and nn: "0 \<le> sint (sc_begin sc)"
    and ex: "\<exists>x \<in> set (drop (nat (sint (sc_begin sc))) ref_ids). \<not> is_ref x"
  shows "foreach_ref_small sc ref_ids f s =
           Some (fold f (ref_chain ref_ids (sc_begin sc)) s,
                 of_nat (length (ref_chain ref_ids (sc_begin sc))) + 1)"
proof -
  let ?b = "sc_begin sc"
  let ?n = "nat (sint ?b)"
  from ex have lt: "?n < length ref_ids" by (cases "?n < length ref_ids") auto
  let ?r = "ref_ids ! ?n"
  have rd: "read_ref ref_ids ?b = Some ?r" using nn lt by (simp add: read_ref_def)
  have dr: "drop ?n ref_ids = ?r # drop (Suc ?n) ref_ids"
    using lt by (simp add: Cons_nth_drop_Suc)
  have "sint ?b + 1 < 2 ^ 31" using lt len nn by (rule idx_succ_bound)
  moreover have "- (2 ^ 31) \<le> sint ?b + 1" using nn by simp
  ultimately have s1: "sint (?b + 1) = sint ?b + 1"
    using sint_add_no_ovf [of ?b 1] by simp
  then have n1: "nat (sint (?b + 1)) = Suc ?n" using nn by simp
  have pre: "is_ref ?r \<longrightarrow>
      0 \<le> sint (?b + 1) \<and> (\<exists>x \<in> set (drop (nat (sint (?b + 1))) ref_ids). \<not> is_ref x)"
    using ex dr s1 n1 nn by auto
  have lp: "foreach_small_loop ref_ids f (?b + 1) ?r s =
      Some (fold f (takeWhile is_ref (?r # drop (Suc ?n) ref_ids)) s,
            ?b + 1 + of_nat (length (takeWhile is_ref (?r # drop (Suc ?n) ref_ids))))"
    using foreach_small_loop_char [OF len pre, of f s] by (simp only: n1)
  have ch: "ref_chain ref_ids ?b = takeWhile is_ref (?r # drop (Suc ?n) ref_ids)"
    by (simp only: ref_chain_def dr)
  have nonneg: "0 \<le>s ?b" using nn by (simp add: word_sle_eq)
  show ?thesis
    using nonneg rd lp by (simp add: foreach_ref_small_def Let_def ch)
qed

text \<open>
  For \<^verbatim>\<open>ref_ids = [12, 4, -1]\<close> and \<^verbatim>\<open>begin = 0\<close> the references 12 and 4 are visited, in
  that order, and 3 is returned.
\<close>

theorem foreach_ref_small_visits_chain_witness:
  "foreach_ref_small \<lparr>sc_min = \<lparr>usx = 0, usy = 0, usz = 0\<rparr>,
                       sc_max = \<lparr>usx = 1, usy = 1, usz = 1\<rparr>, sc_begin = 0\<rparr>
     [12, 4, - 1] record_ref [] = Some ([12, 4], 3)"
proof -
  let ?sc = "\<lparr>sc_min = \<lparr>usx = 0, usy = 0, usz = 0\<rparr>,
              sc_max = \<lparr>usx = 1, usy = 1, usz = 1\<rparr>, sc_begin = 0 :: int32\<rparr>"
  let ?refs = "[12, 4, - 1] :: int32 list"
  have len: "length ?refs < 2 ^ 31" by simp
  have nn: "0 \<le> sint (sc_begin ?sc)" by simp
  have ex: "\<exists>x \<in> set (drop (nat (sint (sc_begin ?sc))) ?refs). \<not> is_ref x"
    by (simp add: is_ref_def word_sle_eq)
  have ch: "ref_chain ?refs 0 = [12, 4]"
    by (simp add: ref_chain_def is_ref_def word_sle_eq)
  from foreach_ref_small_visits_chain [OF len nn ex, of record_ref "[]"]
  show ?thesis by (simp add: ch record_ref_def)
qed

text \<open>
  C3 as stated fails on its own example: two references are visited, and the value
  returned is 3, not 2.
\<close>

theorem foreach_ref_small_visits_chain_counterexample:
  "foreach_ref_small \<lparr>sc_min = \<lparr>usx = 0, usy = 0, usz = 0\<rparr>,
                       sc_max = \<lparr>usx = 1, usy = 1, usz = 1\<rparr>, sc_begin = 0\<rparr>
     [12, 4, - 1] record_ref [] \<noteq> Some ([12, 4], 2)"
  by code_simp

text \<open>
  C4. Storing a \<^verbatim>\<open>Cell\<close> and loading it again gives the same record, field for field,
  and so does storing and loading a \<^verbatim>\<open>SmallCell\<close>, whose coordinates are 16-bit by
  their type.
\<close>

theorem load_store_cell_roundtrip:
  "load_cell (store_cell c) = c \<and> load_cell_small (store_cell_small sc) = sc"
proof
  show "load_cell (store_cell c) = c"
    by (simp add: load_cell_def store_cell_def make_int4_def Let_def)
  have "load_cell_small (store_cell_small sc) =
      \<lparr>sc_min = \<lparr>usx = usx (sc_min sc), usy = usy (sc_min sc), usz = usz (sc_min sc)\<rparr>,
       sc_max = \<lparr>usx = usx (sc_max sc), usy = usy (sc_max sc), usz = usz (sc_max sc)\<rparr>,
       sc_begin = sc_begin sc\<rparr>"
    by (simp only: load_cell_small_def store_cell_small_def make_uint4_def uint4.simps
          low_lane high_lane)
  then show "load_cell_small (store_cell_small sc) = sc" by simp
qed

text \<open>
  C5. The word written for a \<^verbatim>\<open>SmallCell\<close> has the subwords
  \<^verbatim>\<open>min.x | min.y << 16\<close>, \<^verbatim>\<open>min.z | max.x << 16\<close>, \<^verbatim>\<open>max.y | max.z << 16\<close> and
  \<^verbatim>\<open>begin\<close>: in each of the first three the low 16 bits are the first component and the
  high 16 bits the second, so that its unsigned value is the first plus 65536 times the
  second.
\<close>

theorem store_cell_small_layout:
  "store_cell_small sc =
     \<lparr>u4x = ucast (usx (sc_min sc)) OR push_bit 16 (ucast (usy (sc_min sc))),
      u4y = ucast (usz (sc_min sc)) OR push_bit 16 (ucast (usx (sc_max sc))),
      u4z = ucast (usy (sc_max sc)) OR push_bit 16 (ucast (usz (sc_max sc))),
      u4w = sc_begin sc\<rparr>
   \<and> unat (u4x (store_cell_small sc)) = unat (usx (sc_min sc)) + 65536 * unat (usy (sc_min sc))
   \<and> unat (u4y (store_cell_small sc)) = unat (usz (sc_min sc)) + 65536 * unat (usx (sc_max sc))
   \<and> unat (u4z (store_cell_small sc)) = unat (usy (sc_max sc)) + 65536 * unat (usz (sc_max sc))
   \<and> take_bit 16 (u4x (store_cell_small sc)) = ucast (usx (sc_min sc))
   \<and> drop_bit 16 (u4x (store_cell_small sc)) = ucast (usy (sc_min sc))
   \<and> take_bit 16 (u4y (store_cell_small sc)) = ucast (usz (sc_min sc))
   \<and> drop_bit 16 (u4y (store_cell_small sc)) = ucast (usx (sc_max sc))
   \<and> take_bit 16 (u4z (store_cell_small sc)) = ucast (usy (sc_max sc))
   \<and> drop_bit 16 (u4z (store_cell_small sc)) = ucast (usz (sc_max sc))"
proof -
  have lo: "take_bit 16 (ucast a OR push_bit 16 (ucast b) :: uint32) = ucast a"
    for a b :: uint16
    by (rule bit_word_eqI) (auto simp: bit_simps dest: bit_imp_le_length)
  have hi: "drop_bit 16 (ucast a OR push_bit 16 (ucast b) :: uint32) = ucast b"
    for a b :: uint16
    by (rule bit_word_eqI) (auto simp: bit_simps dest: bit_imp_le_length)
  show ?thesis
    by (simp only: store_cell_small_def make_uint4_def uint4.simps unat_lanes lo hi simp_thms)
qed




text \<open>
  C7. On a well-formed entry array (every internal entry's child block present, the
  accumulated depth never above \<^verbatim>\<open>shift\<close>) the descent loop of \<^verbatim>\<open>lookup_entry\<close>, started
  at any top-level entry, ends at a leaf entry and returns its \<^verbatim>\<open>begin\<close>, for every
  voxel; hence \<^verbatim>\<open>lookup_entry\<close> returns whenever the top-level index of the voxel is the
  index of a top-level entry. The loop is defined by well-founded recursion on the shift
  that remains, so it runs at most \<^verbatim>\<open>shift\<close> times.
\<close>

theorem lookup_entry_terminates:
  assumes wf: "wf_entries es shift n"
  shows "(i < n \<longrightarrow>
            (\<exists>j < length es. e_log_dim (es ! j) = 0 \<and>
               lookup_loop es shift v (es ! i) (ucast (e_log_dim (es ! i))) =
                 Some (ucast (e_begin (es ! j)))))
         \<and> (0 \<le> top_index shift dims w \<and> nat (top_index shift dims w) < n \<longrightarrow>
            (\<exists>j < length es. e_log_dim (es ! j) = 0 \<and>
               lookup_entry es shift dims w = Some (ucast (e_begin (es ! j)))))"
proof -
  let ?s = "nat (sint shift)"
  from wf have sh: "0 \<le> sint shift" "sint shift < 32"
    and blocks: "list_all (wf_block es ?s) [0 ..< n]"
    by (simp_all add: wf_entries_def)
  have s32: "?s < 32" using sh by simp
  have loop': "\<exists>j < length es. e_log_dim (es ! j) = 0 \<and>
      lookup_loop es shift u (es ! m) (ucast (e_log_dim (es ! m))) =
        Some (ucast (e_begin (es ! j)))" if "m < n" for m u
  proof -
    from blocks that have b: "wf_block es ?s m" by (simp add: list_all_iff)
    have pre: "e_log_dim (es ! m) \<noteq> 0 \<longrightarrow>
        sint (shift - ucast (e_log_dim (es ! m))) = int ?s - int (unat (e_log_dim (es ! m)))"
      using initial_depth [OF sh(1)] by simp
    from b s32 pre show ?thesis by (rule lookup_loop_wf_block)
  qed
  have entry: "\<exists>j < length es. e_log_dim (es ! j) = 0 \<and>
      lookup_entry es shift dims w = Some (ucast (e_begin (es ! j)))"
    if t: "0 \<le> top_index shift dims w \<and> nat (top_index shift dims w) < n"
  proof -
    let ?m = "nat (top_index shift dims w)"
    from t have m: "?m < n" and top: "top_index shift dims w = int ?m" by simp_all
    from blocks m have "wf_block es ?s ?m" by (simp add: list_all_iff)
    then have "?m < length es" by (rule wf_block_index)
    with sh top have "lookup_entry es shift dims w =
        lookup_loop es shift w (es ! ?m) (ucast (e_log_dim (es ! ?m)))"
      by (rule lookup_entry_top)
    with loop' [OF m, of w] show ?thesis by simp
  qed
  from loop' [of i v] entry show ?thesis by blast
qed

text \<open>
  In the small grid the loop started at the internal entry 1 ends for the voxel
  \<open>(-1, -1, -1)\<close> too, and the lookup of \<open>(2, 0, 0)\<close> returns.
\<close>

theorem lookup_entry_terminates_witness:
  "wf_entries example_entries 1 2
   \<and> (\<exists>j < length example_entries. e_log_dim (example_entries ! j) = 0 \<and>
        lookup_loop example_entries 1 \<lparr>ix = - 1, iy = - 1, iz = - 1\<rparr> (example_entries ! 1)
          (ucast (e_log_dim (example_entries ! 1))) =
        Some (ucast (e_begin (example_entries ! j))))
   \<and> (\<exists>j < length example_entries. e_log_dim (example_entries ! j) = 0 \<and>
        lookup_entry example_entries 1 example_dims \<lparr>ix = 2, iy = 0, iz = 0\<rparr> =
        Some (ucast (e_begin (example_entries ! j))))"
proof -
  have wf: "wf_entries example_entries 1 2" by code_simp
  have i: "(1 :: nat) < 2" by simp
  have t: "0 \<le> top_index 1 example_dims \<lparr>ix = 2, iy = 0, iz = 0\<rparr>
      \<and> nat (top_index 1 example_dims \<lparr>ix = 2, iy = 0, iz = 0\<rparr>) < 2"
    by code_simp
  from lookup_entry_terminates [OF wf, of 1 "\<lparr>ix = - 1, iy = - 1, iz = - 1\<rparr>" example_dims
      "\<lparr>ix = 2, iy = 0, iz = 0\<rparr>"] wf i t
  show ?thesis by blast
qed



text \<open>
  C9. Whenever \<^verbatim>\<open>foreach_ref\<close> on a \<^verbatim>\<open>Cell\<close> returns, it returns \<^verbatim>\<open>end - begin\<close>,
  whatever \<^verbatim>\<open>ref_ids\<close> holds. When the slice \<^verbatim>\<open>[begin, end)\<close> lies inside \<^verbatim>\<open>ref_ids\<close> (or
  is empty) it does return, and \<open>f\<close> is applied to the values of the slice before the
  first negative one and to nothing else: when the slice is \<open>pre @ r # post\<close> with \<open>r\<close>
  the first negative value, only \<open>pre\<close> is visited, and the count is \<^verbatim>\<open>end - begin\<close> all
  the same.
\<close>

theorem foreach_ref_count_ignores_contents:
  "(\<forall>res. foreach_ref c ref_ids f s = Some res \<longrightarrow> snd res = c_end c - c_begin c)
   \<and> ((c_begin c <s c_end c \<longrightarrow>
          0 \<le> sint (c_begin c) \<and> nat (sint (c_end c)) \<le> length ref_ids) \<longrightarrow>
        foreach_ref c ref_ids f s =
          Some (fold f (takeWhile is_ref (ref_slice ref_ids (c_begin c) (c_end c))) s,
                c_end c - c_begin c)
        \<and> (\<forall>pre r post.
              ref_slice ref_ids (c_begin c) (c_end c) = pre @ r # post
              \<and> (\<forall>x \<in> set pre. is_ref x) \<and> \<not> is_ref r \<longrightarrow>
              foreach_ref c ref_ids f s = Some (fold f pre s, c_end c - c_begin c)))"
proof (intro conjI allI impI)
  fix res
  assume "foreach_ref c ref_ids f s = Some res"
  then show "snd res = c_end c - c_begin c"
    by (auto simp: foreach_ref_def split: option.splits prod.splits)
next
  assume inside: "c_begin c <s c_end c \<longrightarrow>
      0 \<le> sint (c_begin c) \<and> nat (sint (c_end c)) \<le> length ref_ids"
  then show "foreach_ref c ref_ids f s =
      Some (fold f (takeWhile is_ref (ref_slice ref_ids (c_begin c) (c_end c))) s,
            c_end c - c_begin c)"
    by (rule foreach_ref_char)
next
  fix pre r post
  assume inside: "c_begin c <s c_end c \<longrightarrow>
      0 \<le> sint (c_begin c) \<and> nat (sint (c_end c)) \<le> length ref_ids"
    and h: "ref_slice ref_ids (c_begin c) (c_end c) = pre @ r # post
      \<and> (\<forall>x \<in> set pre. is_ref x) \<and> \<not> is_ref r"
  from h have "takeWhile is_ref (ref_slice ref_ids (c_begin c) (c_end c)) = pre"
    by (simp add: takeWhile_tail takeWhile_eq_all_conv)
  with foreach_ref_char [OF inside, of f s]
  show "foreach_ref c ref_ids f s = Some (fold f pre s, c_end c - c_begin c)"
    by simp
qed

text \<open>
  With \<^verbatim>\<open>begin = 1\<close>, \<^verbatim>\<open>end = 4\<close> and \<^verbatim>\<open>ref_ids = [6, 5, -2, 7]\<close> only 5 is visited and 3
  is returned.
\<close>

theorem foreach_ref_count_ignores_contents_witness:
  "ref_slice [6, 5, - 2, 7] 1 4 = [5] @ (- 2) # [7]
   \<and> foreach_ref \<lparr>c_min = \<lparr>ix = 0, iy = 0, iz = 0\<rparr>, c_begin = 1,
                   c_max = \<lparr>ix = 1, iy = 1, iz = 1\<rparr>, c_end = 4\<rparr>
       [6, 5, - 2, 7] record_ref [] = Some ([5], 3)"
proof -
  let ?c = "\<lparr>c_min = \<lparr>ix = 0, iy = 0, iz = 0\<rparr>, c_begin = 1,
             c_max = \<lparr>ix = 1, iy = 1, iz = 1\<rparr>, c_end = 4 :: int32\<rparr>"
  let ?refs = "[6, 5, - 2, 7] :: int32 list"
  have sl: "ref_slice ?refs 1 4 = [5] @ (- 2) # [7]"
    by (simp add: ref_slice_def upt_rec)
  have inside: "c_begin ?c <s c_end ?c \<longrightarrow>
      0 \<le> sint (c_begin ?c) \<and> nat (sint (c_end ?c)) \<le> length ?refs" by simp
  have pre: "\<forall>x \<in> set [5 :: int32]. is_ref x" by (simp add: is_ref_def word_sle_eq)
  have neg: "\<not> is_ref (- 2 :: int32)" by (simp add: is_ref_def word_sle_eq)
  have sl': "ref_slice ?refs (c_begin ?c) (c_end ?c) = [5] @ (- 2) # [7]"
    using sl by simp
  from foreach_ref_count_ignores_contents [of ?c ?refs record_ref "[]"] inside sl' pre neg
  have "foreach_ref ?c ?refs record_ref [] = Some (fold record_ref [5] [], c_end ?c - c_begin ?c)"
    by blast
  with sl show ?thesis by (simp add: record_ref_def)
qed

text \<open>
  C10. For a \<^verbatim>\<open>SmallCell\<close> with \<^verbatim>\<open>begin < 0\<close>, \<^verbatim>\<open>foreach_ref\<close> returns 0 and leaves the
  visitor's state as it was, for every visitor and every array, the empty one included:
  it reads no element of \<^verbatim>\<open>ref_ids\<close> and never calls \<open>f\<close>.
\<close>

theorem foreach_ref_small_negative_begin:
  assumes "sint (sc_begin sc) < 0"
  shows "foreach_ref_small sc ref_ids f s = Some (s, 0)
         \<and> foreach_ref_small sc [] f s = Some (s, 0)"
proof -
  from assms have neg: "\<not> 0 \<le>s sc_begin sc" by (simp add: word_sle_eq)
  have m1: "\<not> 0 \<le>s (- 1 :: int32)" by (simp add: word_sle_eq)
  have "foreach_small_loop refs f (sc_begin sc) (- 1) s = Some (s, sc_begin sc)" for refs
    using m1 by (subst foreach_small_loop.simps) simp
  with neg show ?thesis by (simp add: foreach_ref_small_def Let_def)
qed

theorem foreach_ref_small_negative_begin_witness:
  "sint (- 1 :: int32) < 0
   \<and> foreach_ref_small \<lparr>sc_min = \<lparr>usx = 0, usy = 0, usz = 0\<rparr>,
                         sc_max = \<lparr>usx = 1, usy = 1, usz = 1\<rparr>, sc_begin = - 1\<rparr>
       [12, 4, - 1] record_ref [] = Some ([], 0)"
proof -
  have h: "sint (sc_begin \<lparr>sc_min = \<lparr>usx = 0, usy = 0, usz = 0\<rparr>,
                          sc_max = \<lparr>usx = 1, usy = 1, usz = 1\<rparr>, sc_begin = - 1 :: int32\<rparr>) < 0"
    by simp
  from foreach_ref_small_negative_begin [OF h, of "[12, 4, - 1]" record_ref "[]"]
  show ?thesis by simp
qed

end
